theory Spec2Isabelle
  imports Complex_Main "HOL-Library.Word" "HOL-Library.Multiset"
begin

section \<open>Failures\<close>

text \<open>
  Neither script defines an exception class. A run ends early in two ways: the script
  prints a message and calls \<open>exit()\<close> (no image, no board contour), or an exception of
  numpy or OpenCV escapes, since there is no \<open>try\<close> anywhere in the two files.
\<close>

datatype failure =
    ImageNotLoaded        \<comment> \<open>step0.py, line 20: \<open>image is None\<close>, then \<open>exit()\<close>\<close>
  | BoardContourNotFound  \<comment> \<open>step0.py, line 64: \<open>board_contour is None\<close>, then \<open>exit()\<close>\<close>
  | ValueError            \<comment> \<open>numpy: argmin, argmax, min or max of an empty array\<close>
  | CvError               \<comment> \<open>\<open>cv2.error\<close> raised inside an OpenCV call\<close>

section \<open>step0.py: locating and rectifying the board\<close>

text \<open>
  Pixel coordinates are \<open>int32\<close> in the contour and \<open>float32\<close> in \<open>rect\<close>. They are
  bounded by the size of the photograph, so neither \<open>x + y\<close> nor \<open>y - x\<close> leaves \<open>int32\<close>
  and the conversion to \<open>float32\<close> is exact; they are modelled as \<open>int\<close>.
\<close>

type_synonym point = "int \<times> int"

text \<open>
  The OpenCV calls of step0.py. Images, contours and the homography matrix are opaque to
  the script, so their types are parameters. \<open>contourArea\<close> and \<open>arcLength\<close> return
  doubles; the script only compares areas, which is exact. The two calls of the
  rectification stage may raise \<open>cv2.error\<close>.
\<close>

record ('img, 'cnt, 'mat) cv2 =
  cvtColor :: "'img \<Rightarrow> 'img"
  GaussianBlur :: "'img \<Rightarrow> 'img"
  Canny :: "'img \<Rightarrow> real \<Rightarrow> real \<Rightarrow> 'img"
  findContours :: "'img \<Rightarrow> 'cnt list"
  contourArea :: "'cnt \<Rightarrow> real"
  arcLength :: "'cnt \<Rightarrow> bool \<Rightarrow> real"
  approxPolyDP :: "'cnt \<Rightarrow> real \<Rightarrow> bool \<Rightarrow> point list"
  getPerspectiveTransform :: "point list \<Rightarrow> point list \<Rightarrow> failure + 'mat"
  warpPerspective :: "'img \<Rightarrow> 'mat \<Rightarrow> nat \<times> nat \<Rightarrow> failure + 'img"

text \<open>Lines 51 to 62: one iteration of the loop over the contours.\<close>

definition board_contour_step ::
  "('img, 'cnt, 'mat) cv2 \<Rightarrow> 'cnt \<Rightarrow> point list option \<times> real \<Rightarrow> point list option \<times> real" where
  "board_contour_step cv cnt s =
     (case s of (board_contour, max_area) \<Rightarrow>
        let area = contourArea cv cnt in
        if area > max_area then
          let peri = arcLength cv cnt True;
              approx = approxPolyDP cv cnt (0.02 * peri) True
          in if length approx = 4 then (Some approx, area) else (board_contour, max_area)
        else (board_contour, max_area))"

definition find_board_contour ::
  "('img, 'cnt, 'mat) cv2 \<Rightarrow> 'cnt list \<Rightarrow> point list option" where
  "find_board_contour cv contours = fst (fold (board_contour_step cv) contours (None, 0))"

text \<open>\<open>np.argmin\<close> and \<open>np.argmax\<close> return the first index of an extreme value.\<close>

fun argmin :: "int list \<Rightarrow> nat" where
  "argmin [] = 0"
| "argmin [x] = 0"
| "argmin (x # y # ys) = (let i = argmin (y # ys) in if x \<le> (y # ys) ! i then 0 else Suc i)"

fun argmax :: "int list \<Rightarrow> nat" where
  "argmax [] = 0"
| "argmax [x] = 0"
| "argmax (x # y # ys) = (let i = argmax (y # ys) in if (y # ys) ! i \<le> x then 0 else Suc i)"

text \<open>
  Lines 82 to 93. \<open>pts.sum(axis=1)\<close> is \<open>x + y\<close> of each point and
  \<open>np.diff(pts, axis=1)\<close> is \<open>y - x\<close> of each point (second column minus first).
  The result is \<open>[rect[0], rect[1], rect[2], rect[3]]\<close>. On an empty array
  \<open>np.argmin\<close> raises.
\<close>

definition order_points :: "point list \<Rightarrow> failure + point list" where
  "order_points pts =
     (if pts = [] then Inl ValueError
      else
        let s = map (\<lambda>(x, y). x + y) pts;
            diff = map (\<lambda>(x, y). y - x) pts
        in Inr [pts ! argmin s, pts ! argmin diff, pts ! argmax s, pts ! argmax diff])"

definition BOARD_SIZE :: nat where
  "BOARD_SIZE = 800"

definition dst :: "point list" where
  "dst = [(0, 0), (int BOARD_SIZE, 0), (int BOARD_SIZE, int BOARD_SIZE), (0, int BOARD_SIZE)]"

text \<open>Lines 95 to 107: the rectification stage, from the four points of the contour.\<close>

definition rectify ::
  "('img, 'cnt, 'mat) cv2 \<Rightarrow> 'img \<Rightarrow> point list \<Rightarrow> failure + 'img" where
  "rectify cv img pts =
     (case order_points pts of
        Inl e \<Rightarrow> Inl e
      | Inr rect \<Rightarrow>
          (case getPerspectiveTransform cv rect dst of
             Inl e \<Rightarrow> Inl e
           | Inr M \<Rightarrow> warpPerspective cv img M (BOARD_SIZE, BOARD_SIZE)))"

text \<open>
  Lines 18 to 107: the script up to the rectified board. \<open>imread\<close> gives \<open>None\<close> for a
  file that cannot be read.
\<close>

definition step0 :: "('img, 'cnt, 'mat) cv2 \<Rightarrow> 'img option \<Rightarrow> failure + 'img" where
  "step0 cv loaded =
     (case loaded of
        None \<Rightarrow> Inl ImageNotLoaded
      | Some img \<Rightarrow>
          let gray = cvtColor cv img;
              blur = GaussianBlur cv gray;
              edges = Canny cv blur 50 150;
              contours = findContours cv edges
          in (case find_board_contour cv contours of
                None \<Rightarrow> Inl BoardContourNotFound
              | Some board_contour \<Rightarrow> rectify cv img board_contour))"

section \<open>step3_advanced_recognition.py: classifying the cells\<close>

text \<open>
  A grayscale image is a \<open>uint8\<close> array, here the list of its rows. \<open>shape[0]\<close> is the
  number of rows and \<open>shape[1]\<close> the length of a row.
\<close>

type_synonym gray = "8 word list list"

definition shape0 :: "gray \<Rightarrow> nat" where
  "shape0 g = length g"

definition shape1 :: "gray \<Rightarrow> nat" where
  "shape1 g = (case g of [] \<Rightarrow> 0 | r # _ \<Rightarrow> length r)"

text \<open>The OpenCV calls of the recognition script; a BGR image and a contour are opaque.\<close>

record ('img, 'cnt) cv2_cell =
  cvtColor_gray :: "'img \<Rightarrow> gray"
  GaussianBlur5 :: "gray \<Rightarrow> gray"
  findContours_ext :: "gray \<Rightarrow> 'cnt list"
  contourArea_of :: "'cnt \<Rightarrow> real"
  boundingRect :: "'cnt \<Rightarrow> int \<times> int \<times> int \<times> int"

text \<open>
  numpy's floating-point results are modelled by exact reals. \<open>np.mean\<close> of an empty
  array is \<open>nan\<close>, as is \<open>0 / 0\<close> on numpy scalars (a warning, no exception); \<open>nan\<close>
  is \<open>None\<close> here, and every comparison with it is false. A count of pixels is at
  most the number of pixels, so a divisor 0 comes with a dividend 0. The thresholds compared with
  are 127, 160, 100, 180, 140 (exact doubles) and 0.15, 0.6, 0.4, 0.2, 1.2: a quotient of
  two integers that differs from such a threshold differs by far more than a rounding
  error for any image that fits in memory, and a quotient equal to it rounds to the
  same double as the literal, so the exact comparison decides as the double one does.
\<close>

definition np_mean :: "gray \<Rightarrow> real option" where
  "np_mean g =
     (let px = concat g
      in if px = [] then None else Some (real (sum_list (map unat px)) / real (length px)))"

definition true_divide :: "nat \<Rightarrow> nat \<Rightarrow> real option" where
  "true_divide a b = (if b = 0 then None else Some (real a / real b))"

definition gt :: "real option \<Rightarrow> real \<Rightarrow> bool" where
  "gt v t = (case v of None \<Rightarrow> False | Some r \<Rightarrow> r > t)"

definition lt :: "real option \<Rightarrow> real \<Rightarrow> bool" where
  "lt v t = (case v of None \<Rightarrow> False | Some r \<Rightarrow> r < t)"

text \<open>\<open>np.sum(img < t)\<close>: the number of pixels that satisfy the test.\<close>

definition count_pixels :: "(8 word \<Rightarrow> bool) \<Rightarrow> gray \<Rightarrow> nat" where
  "count_pixels P g = length (filter P (concat g))"

definition np_min :: "gray \<Rightarrow> failure + 8 word" where
  "np_min g = (case concat g of [] \<Rightarrow> Inl ValueError | p # ps \<Rightarrow> Inr (fold min ps p))"

definition np_max :: "gray \<Rightarrow> failure + 8 word" where
  "np_max g = (case concat g of [] \<Rightarrow> Inl ValueError | p # ps \<Rightarrow> Inr (fold max ps p))"

text \<open>Lines 26 to 30.\<close>

definition get_cell_color :: "('img, 'cnt) cv2_cell \<Rightarrow> 'img \<Rightarrow> string" where
  "get_cell_color cv cell_image =
     (let gray = cvtColor_gray cv cell_image;
          avg_color = np_mean gray
      in if gt avg_color 127 then ''light'' else ''dark'')"

text \<open>
  Lines 33 to 57. \<open>max_val - min_val\<close> is a subtraction of two \<open>uint8\<close> scalars.
\<close>

definition is_cell_empty :: "('img, 'cnt) cv2_cell \<Rightarrow> 'img \<Rightarrow> string \<Rightarrow> failure + bool" where
  "is_cell_empty cv cell_image cell_color =
     (let gray = cvtColor_gray cv cell_image;
          blurred = GaussianBlur5 cv gray;
          contrast_pixels =
            (if cell_color = ''light'' then count_pixels (\<lambda>p. p < 80) blurred
             else count_pixels (\<lambda>p. p > 180) blurred);
          total_pixels = shape0 gray * shape1 gray;
          contrast_ratio = true_divide contrast_pixels total_pixels
      in (case np_min blurred of
            Inl e \<Rightarrow> Inl e
          | Inr min_val \<Rightarrow>
              (case np_max blurred of
                 Inl e \<Rightarrow> Inl e
               | Inr max_val \<Rightarrow>
                   let contrast = max_val - min_val
                   in Inr (lt contrast_ratio 0.15 \<and> contrast < 100))))"

text \<open>A Python slice \<open>xs[i:j]\<close> with \<open>0 \<le> i\<close> and \<open>0 \<le> j\<close>.\<close>

definition slice :: "nat \<Rightarrow> nat \<Rightarrow> 'a list \<Rightarrow> 'a list" where
  "slice i j xs = take (j - i) (drop i xs)"

text \<open>Lines 60 to 87.\<close>

definition get_piece_color :: "('img, 'cnt) cv2_cell \<Rightarrow> 'img \<Rightarrow> string \<Rightarrow> char" where
  "get_piece_color cv cell_image cell_color =
     (let gray = cvtColor_gray cv cell_image;
          height = shape0 gray;
          width = shape1 gray;
          center_region =
            map (slice (width div 4) (3 * width div 4))
              (slice (height div 4) (3 * height div 4) gray);
          avg_brightness = np_mean center_region
      in if cell_color = ''light'' then
           (if gt avg_brightness 160 then CHR ''w''
            else if lt avg_brightness 100 then CHR ''b''
            else CHR ''?'')
         else
           (if gt avg_brightness 180 then CHR ''w''
            else if lt avg_brightness 140 then CHR ''b''
            else CHR ''?''))"

text \<open>
  \<open>cv2.threshold(gray, t, 255, THRESH_BINARY)\<close> sets a pixel to 255 where it exceeds
  \<open>t\<close> and to 0 elsewhere; \<open>THRESH_BINARY_INV\<close> does the opposite.
\<close>

definition threshold_binary :: "8 word \<Rightarrow> gray \<Rightarrow> gray" where
  "threshold_binary t g = map (map (\<lambda>p. if p > t then 255 else 0)) g"

definition threshold_binary_inv :: "8 word \<Rightarrow> gray \<Rightarrow> gray" where
  "threshold_binary_inv t g = map (map (\<lambda>p. if p > t then 0 else 255)) g"

text \<open>Python's \<open>max(xs, key=f)\<close> on a non-empty list: the first element of largest key.\<close>

fun max_key :: "('a \<Rightarrow> real) \<Rightarrow> 'a \<Rightarrow> 'a list \<Rightarrow> 'a" where
  "max_key f best [] = best"
| "max_key f best (x # xs) = max_key f (if f x > f best then x else best) xs"

text \<open>Lines 90 to 131. The parameter \<open>piece_color\<close> is not used by the source.\<close>

definition guess_piece_type ::
  "('img, 'cnt) cv2_cell \<Rightarrow> 'img \<Rightarrow> char \<Rightarrow> string \<Rightarrow> char" where
  "guess_piece_type cv cell_image piece_color cell_color =
     (let gray = cvtColor_gray cv cell_image;
          filled_pixels =
            (if cell_color = ''light'' then count_pixels (\<lambda>p. p < 100) gray
             else count_pixels (\<lambda>p. p > 150) gray);
          total_pixels = shape0 gray * shape1 gray;
          fill_ratio = true_divide filled_pixels total_pixels;
          binary =
            (if cell_color = ''light'' then threshold_binary_inv 100 gray
             else threshold_binary 150 gray)
      in (case findContours_ext cv binary of
            [] \<Rightarrow> CHR ''p''
          | c # cs \<Rightarrow>
              let largest_contour = max_key (contourArea_of cv) c cs
              in (case boundingRect cv largest_contour of
                    (x, y, w, h) \<Rightarrow>
                      let aspect_ratio = (if w > 0 then real_of_int h / real_of_int w else 0)
                      in if gt fill_ratio 0.6 then
                           (if aspect_ratio > 1.2 then CHR ''r'' else CHR ''q'')
                         else if gt fill_ratio 0.4 then CHR ''n''
                         else if gt fill_ratio 0.2 then CHR ''b''
                         else CHR ''p'')))"

text \<open>
  \<open>str.upper\<close> and \<open>str.lower\<close> on one character. The source applies them to the result
  of \<open>guess_piece_type\<close>, an ASCII letter.
\<close>

definition upper :: "char \<Rightarrow> char" where
  "upper c = (let n = (of_char c :: nat) in if 97 \<le> n \<and> n \<le> 122 then char_of (n - 32) else c)"

definition lower :: "char \<Rightarrow> char" where
  "lower c = (let n = (of_char c :: nat) in if 65 \<le> n \<and> n \<le> 90 then char_of (n + 32) else c)"

text \<open>
  Lines 140 to 193. A cell file may be absent (\<open>os.path.exists\<close> is false), present but
  not decodable (\<open>imread\<close> gives \<open>None\<close> and \<open>cvtColor\<close> raises), or an image. The labels
  of the board are strings of one character, modelled as \<open>char\<close>.
\<close>

datatype 'img cell_file = NoFile | Unreadable | Pixels 'img

record analysis =
  board :: "char list list"
  empty_count :: nat
  white_count :: nat
  black_count :: nat

definition set_cell :: "char list list \<Rightarrow> nat \<Rightarrow> nat \<Rightarrow> char \<Rightarrow> char list list" where
  "set_cell b row col v = b[row := (b ! row)[col := v]]"

definition analyse_cell ::
  "('img, 'cnt) cv2_cell \<Rightarrow> (nat \<Rightarrow> nat \<Rightarrow> 'img cell_file) \<Rightarrow> nat \<Rightarrow> nat \<Rightarrow> analysis
     \<Rightarrow> failure + analysis" where
  "analyse_cell cv files row col st =
     (case files row col of
        NoFile \<Rightarrow> Inr (st\<lparr>board := set_cell (board st) row col CHR ''?''\<rparr>)
      | Unreadable \<Rightarrow> Inl CvError
      | Pixels cell \<Rightarrow>
          let cell_color = get_cell_color cv cell
          in (case is_cell_empty cv cell cell_color of
                Inl e \<Rightarrow> Inl e
              | Inr True \<Rightarrow>
                  Inr (st\<lparr>board := set_cell (board st) row col CHR ''.'',
                          empty_count := empty_count st + 1\<rparr>)
              | Inr False \<Rightarrow>
                  let piece_color = get_piece_color cv cell cell_color;
                      piece_type = guess_piece_type cv cell piece_color cell_color
                  in if piece_color = CHR ''w'' then
                       Inr (st\<lparr>board := set_cell (board st) row col (upper piece_type),
                               white_count := white_count st + 1\<rparr>)
                     else if piece_color = CHR ''b'' then
                       Inr (st\<lparr>board := set_cell (board st) row col (lower piece_type),
                               black_count := black_count st + 1\<rparr>)
                     else
                       Inr (st\<lparr>board := set_cell (board st) row col CHR ''?''\<rparr>)))"

text \<open>A \<open>for\<close> loop whose body may raise: the first failure ends it.\<close>

fun for_each :: "nat list \<Rightarrow> (nat \<Rightarrow> 's \<Rightarrow> failure + 's) \<Rightarrow> 's \<Rightarrow> failure + 's" where
  "for_each [] body s = Inr s"
| "for_each (i # is) body s =
     (case body i s of Inl e \<Rightarrow> Inl e | Inr s' \<Rightarrow> for_each is body s')"

definition initial :: analysis where
  "initial = \<lparr>board = replicate 8 (replicate 8 CHR ''.''),
              empty_count = 0, white_count = 0, black_count = 0\<rparr>"

definition analyse ::
  "('img, 'cnt) cv2_cell \<Rightarrow> (nat \<Rightarrow> nat \<Rightarrow> 'img cell_file) \<Rightarrow> failure + analysis" where
  "analyse cv files =
     for_each [0..<8] (\<lambda>row. for_each [0..<8] (\<lambda>col. analyse_cell cv files row col)) initial"

subsection \<open>Lines 229 to 250: the position string\<close>

definition digit_char :: "nat \<Rightarrow> char" where
  "digit_char d = char_of (48 + d)"

text \<open>Python's \<open>str\<close> of a non-negative integer: its decimal digits.\<close>

function str :: "nat \<Rightarrow> string" where
  "str n = (if n < 10 then [digit_char n] else str (n div 10) @ [digit_char (n mod 10)])"
  by pat_completeness auto
termination
  by (relation "measure id") auto

declare str.simps [simp del]

definition fen_step :: "char \<Rightarrow> string \<times> nat \<Rightarrow> string \<times> nat" where
  "fen_step piece s =
     (case s of (fen_row, empty_count_in_row) \<Rightarrow>
        if piece = CHR ''.'' then (fen_row, empty_count_in_row + 1)
        else if empty_count_in_row > 0 then (fen_row @ str empty_count_in_row @ [piece], 0)
        else (fen_row @ [piece], 0))"

definition fen_flush :: "string \<times> nat \<Rightarrow> string" where
  "fen_flush s =
     (case s of (fen_row, empty_count_in_row) \<Rightarrow>
        if empty_count_in_row > 0 then fen_row @ str empty_count_in_row else fen_row)"

definition fen_row_of :: "char list list \<Rightarrow> nat \<Rightarrow> string" where
  "fen_row_of b row = fen_flush (fold (\<lambda>col. fen_step (b ! row ! col)) [0..<8] ([], 0))"

definition fen_rows :: "char list list \<Rightarrow> string list" where
  "fen_rows b = map (fen_row_of b) [0..<8]"

text \<open>\<open>sep.join(xs)\<close>.\<close>

fun join :: "string \<Rightarrow> string list \<Rightarrow> string" where
  "join sep [] = []"
| "join sep [x] = x"
| "join sep (x # y # ys) = x @ sep @ join sep (y # ys)"

definition fen_position :: "char list list \<Rightarrow> string" where
  "fen_position b = join ''/'' (fen_rows b)"

section \<open>Notions of the specification\<close>

text \<open>
  The definitions of this section do not come from the source. They state what the
  specification says, or what the theorems below say of the code, so that the two can
  be compared.
\<close>

subsection \<open>Corners\<close>

text \<open>A point of the list at which \<open>f\<close> is least, or greatest.\<close>

definition attains_min :: "(point \<Rightarrow> int) \<Rightarrow> point list \<Rightarrow> point \<Rightarrow> bool" where
  "attains_min f pts p = (p \<in> set pts \<and> (\<forall>q \<in> set pts. f p \<le> f q))"

definition attains_max :: "(point \<Rightarrow> int) \<Rightarrow> point list \<Rightarrow> point \<Rightarrow> bool" where
  "attains_max f pts p = (p \<in> set pts \<and> (\<forall>q \<in> set pts. f q \<le> f p))"

text \<open>
  The canonical rule in the words of the specification: top-left and bottom-right by
  \<open>x + y\<close>, top-right the least and bottom-left the greatest \<open>x - y\<close>.
\<close>

definition corners_as_specified :: "point list \<Rightarrow> point list \<Rightarrow> bool" where
  "corners_as_specified pts rect =
     (length rect = 4 \<and>
      attains_min (\<lambda>(x, y). x + y) pts (rect ! 0) \<and>
      attains_max (\<lambda>(x, y). x + y) pts (rect ! 2) \<and>
      attains_min (\<lambda>(x, y). x - y) pts (rect ! 1) \<and>
      attains_max (\<lambda>(x, y). x - y) pts (rect ! 3))"

text \<open>The same rule with the difference taken as the source takes it, \<open>y - x\<close>.\<close>

definition corners_by_difference :: "point list \<Rightarrow> point list \<Rightarrow> bool" where
  "corners_by_difference pts rect =
     (length rect = 4 \<and>
      attains_min (\<lambda>(x, y). x + y) pts (rect ! 0) \<and>
      attains_max (\<lambda>(x, y). x + y) pts (rect ! 2) \<and>
      attains_min (\<lambda>(x, y). y - x) pts (rect ! 1) \<and>
      attains_max (\<lambda>(x, y). y - x) pts (rect ! 3))"

text \<open>Each of the four extremes is attained by one point only.\<close>

definition one_min :: "(point \<Rightarrow> int) \<Rightarrow> point list \<Rightarrow> bool" where
  "one_min f pts = (\<forall>p \<in> set pts. \<forall>q \<in> set pts. attains_min f pts p \<and> attains_min f pts q \<longrightarrow> p = q)"

definition one_max :: "(point \<Rightarrow> int) \<Rightarrow> point list \<Rightarrow> bool" where
  "one_max f pts = (\<forall>p \<in> set pts. \<forall>q \<in> set pts. attains_max f pts p \<and> attains_max f pts q \<longrightarrow> p = q)"

definition extremes_unique :: "point list \<Rightarrow> bool" where
  "extremes_unique pts =
     (one_min (\<lambda>(x, y). x + y) pts \<and> one_max (\<lambda>(x, y). x + y) pts \<and>
      one_min (\<lambda>(x, y). y - x) pts \<and> one_max (\<lambda>(x, y). y - x) pts)"

text \<open>Three corners on one line: the corner geometry for which no homography exists.\<close>

definition collinear :: "point \<Rightarrow> point \<Rightarrow> point \<Rightarrow> bool" where
  "collinear p q r = ((fst q - fst p) * (snd r - snd p) = (snd q - snd p) * (fst r - fst p))"

definition degenerate :: "point list \<Rightarrow> bool" where
  "degenerate rect =
     (collinear (rect ! 0) (rect ! 1) (rect ! 2) \<or> collinear (rect ! 0) (rect ! 1) (rect ! 3) \<or>
      collinear (rect ! 0) (rect ! 2) (rect ! 3) \<or> collinear (rect ! 1) (rect ! 2) (rect ! 3))"

subsection \<open>The board contour\<close>

text \<open>The polygon the locator computes for a contour, and the contours it can accept.\<close>

definition approx_of :: "('img, 'cnt, 'mat) cv2 \<Rightarrow> 'cnt \<Rightarrow> point list" where
  "approx_of cv cnt = approxPolyDP cv cnt (0.02 * arcLength cv cnt True) True"

definition four_sided :: "('img, 'cnt, 'mat) cv2 \<Rightarrow> 'cnt \<Rightarrow> bool" where
  "four_sided cv cnt = (length (approx_of cv cnt) = 4)"

definition qualifies :: "('img, 'cnt, 'mat) cv2 \<Rightarrow> 'cnt \<Rightarrow> bool" where
  "qualifies cv cnt = (0 < contourArea cv cnt \<and> four_sided cv cnt)"

text \<open>
  The locator in the words of the specification: among the four-sided contours the one
  of largest area, and nothing when there is none or when the largest area is shared.
\<close>

definition locator_as_specified ::
  "('img, 'cnt, 'mat) cv2 \<Rightarrow> 'cnt list \<Rightarrow> point list option" where
  "locator_as_specified cv contours =
     (let candidates = filter (four_sided cv) contours;
          largest = filter (\<lambda>c. \<forall>d \<in> set candidates. contourArea cv d \<le> contourArea cv c) candidates
      in case largest of [c] \<Rightarrow> Some (approx_of cv c) | _ \<Rightarrow> None)"

text \<open>
  Position \<open>i\<close> holds the first contour of largest area among those that qualify.
\<close>

definition first_largest :: "('img, 'cnt, 'mat) cv2 \<Rightarrow> 'cnt list \<Rightarrow> nat \<Rightarrow> bool" where
  "first_largest cv contours i =
     (i < length contours \<and> qualifies cv (contours ! i) \<and>
      (\<forall>j < length contours. qualifies cv (contours ! j) \<longrightarrow>
           contourArea cv (contours ! j) \<le> contourArea cv (contours ! i)) \<and>
      (\<forall>j < i. qualifies cv (contours ! j) \<longrightarrow>
           contourArea cv (contours ! j) < contourArea cv (contours ! i)))"

subsection \<open>Rectification\<close>

text \<open>
  The rectifier in the words of the specification: corners with three points on a line
  end in a failure, never in an image.
\<close>

definition rectifier_as_specified ::
  "('img, 'cnt, 'mat) cv2 \<Rightarrow> 'img \<Rightarrow> point list \<Rightarrow> bool" where
  "rectifier_as_specified cv img pts =
     (case order_points pts of
        Inl e \<Rightarrow> True
      | Inr rect \<Rightarrow> degenerate rect \<longrightarrow> isl (rectify cv img pts))"

subsection \<open>Boards\<close>

definition white_letters :: "char list" where
  "white_letters = ''KQRBNP''"

definition black_letters :: "char list" where
  "black_letters = ''kqrbnp''"

definition piece_letters :: "char list" where
  "piece_letters = ''KQRBNPkqrbnp''"

text \<open>The number of cells of a board whose label satisfies a test.\<close>

definition count_labels :: "(char \<Rightarrow> bool) \<Rightarrow> char list list \<Rightarrow> nat" where
  "count_labels P b = length (filter P (concat b))"

text \<open>An 8 by 8 grid.\<close>

definition grid8 :: "char list list \<Rightarrow> bool" where
  "grid8 b = (length b = 8 \<and> list_all (\<lambda>r. length r = 8) b)"

text \<open>Every label is Empty or a piece of known colour.\<close>

definition known_labels :: "char list list \<Rightarrow> bool" where
  "known_labels b = list_all (list_all (\<lambda>c. c = CHR ''.'' \<or> c \<in> set piece_letters)) b"

text \<open>Every label is Empty, a piece letter or the placeholder of an unknown colour.\<close>

definition board_labels :: "char list list \<Rightarrow> bool" where
  "board_labels b =
     list_all (list_all (\<lambda>c. c = CHR ''.'' \<or> c \<in> set piece_letters \<or> c = CHR ''?'')) b"


subsection \<open>The loop over the cells\<close>

text \<open>An occupied cell the colour of whose piece the classifier leaves open.\<close>

definition unknown_colour :: "('img, 'cnt) cv2_cell \<Rightarrow> 'img cell_file \<Rightarrow> bool" where
  "unknown_colour cv f =
     (case f of
        Pixels cell \<Rightarrow>
          is_cell_empty cv cell (get_cell_color cv cell) = Inr False \<and>
          get_piece_color cv cell (get_cell_color cv cell) = CHR ''?''
      | _ \<Rightarrow> False)"

text \<open>
  The state of the analysis when the first \<open>k\<close> cells, in row-major order, have been
  visited: the loop invariant of lines 152 to 193.
\<close>

definition visited :: "('img, 'cnt) cv2_cell \<Rightarrow> (nat \<Rightarrow> nat \<Rightarrow> 'img cell_file) \<Rightarrow> nat \<Rightarrow> analysis \<Rightarrow> bool" where
  "visited cv files k st =
     (grid8 (board st) \<and> board_labels (board st) \<and>
      (\<forall>r < 8. \<forall>c < 8. k \<le> 8 * r + c \<longrightarrow> board st ! r ! c = CHR ''.'') \<and>
      (\<forall>r < 8. \<forall>c < 8. 8 * r + c < k \<longrightarrow> unknown_colour cv (files r c)
           \<longrightarrow> board st ! r ! c = CHR ''?'') \<and>
      empty_count st + count_labels (\<lambda>c. c \<noteq> CHR ''.'') (board st) = k \<and>
      white_count st = count_labels (\<lambda>c. c \<in> set white_letters) (board st) \<and>
      black_count st = count_labels (\<lambda>c. c \<in> set black_letters) (board st))"

subsection \<open>Reading a position string back\<close>

text \<open>\<open>s.split(sep)\<close> for a separator of one character.\<close>

fun split :: "char \<Rightarrow> string \<Rightarrow> string list" where
  "split sep [] = [[]]"
| "split sep (c # cs) =
     (if c = sep then [] # split sep cs
      else (case split sep cs of [] \<Rightarrow> [[c]] | w # ws \<Rightarrow> (c # w) # ws))"

definition is_digit :: "char \<Rightarrow> bool" where
  "is_digit c = (48 \<le> (of_char c :: nat) \<and> (of_char c :: nat) \<le> 57)"

definition digit_value :: "char \<Rightarrow> nat" where
  "digit_value c = of_char c - 48"

text \<open>A run-length digit expands to that many empty cells; any other token is a cell.\<close>

definition expand_token :: "char \<Rightarrow> char list" where
  "expand_token c = (if is_digit c then replicate (digit_value c) CHR ''.'' else [c])"

definition parse_rank :: "string \<Rightarrow> char list" where
  "parse_rank s = concat (map expand_token s)"

definition parse_position :: "string \<Rightarrow> char list list" where
  "parse_position s = map parse_rank (split CHR ''/'' s)"

text \<open>The number of cells a rank segment stands for, and segments without two digits in a row.\<close>

definition cells_encoded :: "string \<Rightarrow> nat" where
  "cells_encoded seg =
     sum_list (map digit_value (filter is_digit seg)) + length (filter (\<lambda>c. \<not> is_digit c) seg)"

fun no_adjacent_digits :: "string \<Rightarrow> bool" where
  "no_adjacent_digits (c # d # cs) = (\<not> (is_digit c \<and> is_digit d) \<and> no_adjacent_digits (d # cs))"
| "no_adjacent_digits cs = True"

section \<open>Sample inputs\<close>

text \<open>
  A stand-in for OpenCV on which the scripts can be run: a picture is the list of the
  contours drawn in it, a contour is its area with its approximating polygon, and the
  two calls of the rectification stage return. (OpenCV's \<open>getPerspectiveTransform\<close>
  solves a linear system and returns the matrix without looking at the solver's verdict.)
\<close>

definition plain_cv :: "((real \<times> point list) list, real \<times> point list, point list) cv2" where
  "plain_cv =
     \<lparr>cvtColor = (\<lambda>i. i), GaussianBlur = (\<lambda>i. i), Canny = (\<lambda>i lo hi. i),
      findContours = (\<lambda>i. i), contourArea = fst, arcLength = (\<lambda>c closed. 0),
      approxPolyDP = (\<lambda>c eps closed. snd c),
      getPerspectiveTransform = (\<lambda>src d. Inr src),
      warpPerspective = (\<lambda>i M size. Inr i)\<rparr>"

text \<open>
  A stand-in for OpenCV on cells: a cell picture is grayscale already, blurring leaves it
  as it is, and the non-zero pixels of a binary picture form one contour, bounded by the
  whole picture.
\<close>

definition plain_cell :: "(gray, int \<times> int \<times> int \<times> int) cv2_cell" where
  "plain_cell =
     \<lparr>cvtColor_gray = (\<lambda>g. g), GaussianBlur5 = (\<lambda>g. g),
      findContours_ext =
        (\<lambda>b. if list_ex (\<lambda>p. p \<noteq> 0) (concat b) then [(0, 0, int (shape1 b), int (shape0 b))]
             else []),
      contourArea_of = (\<lambda>c. 1), boundingRect = (\<lambda>c. c)\<rparr>"

text \<open>
  Small pictures: a light cell with nothing on it, a light cell with a piece whose
  centre is neither bright nor dark, and a light cell that a dark piece fills, taller
  than wide. A board of 63 empty cells and the piece of unknown colour.
\<close>

definition empty_cell :: gray where
  "empty_cell = [[200, 200], [200, 200]]"

definition grey_piece :: gray where
  "grey_piece = [[130, 255], [20, 130]]"

definition tall_piece :: gray where
  "tall_piece = [[10, 10], [10, 10], [10, 200]]"

definition one_grey_piece :: "nat \<Rightarrow> nat \<Rightarrow> gray cell_file" where
  "one_grey_piece row col = (if row = 4 \<and> col = 2 then Pixels grey_piece else Pixels empty_cell)"

section \<open>The position string\<close>

lemma str_digit: "n < 10 \<Longrightarrow> str n = [digit_char n]"
  by (simp add: str.simps)

lemma is_digit_digit_char: "n < 10 \<Longrightarrow> is_digit (digit_char n)"
  by (simp add: is_digit_def digit_char_def)

lemma digit_value_digit_char: "n < 10 \<Longrightarrow> digit_value (digit_char n) = n"
  by (simp add: digit_value_def digit_char_def)

lemma parse_rank_append: "parse_rank (a @ b) = parse_rank a @ parse_rank b"
  by (simp add: parse_rank_def)

lemma parse_rank_str: "n < 10 \<Longrightarrow> parse_rank (str n) = replicate n CHR ''.''"
  by (simp add: str_digit parse_rank_def expand_token_def is_digit_digit_char digit_value_digit_char)

lemma parse_rank_piece: "\<not> is_digit c \<Longrightarrow> parse_rank [c] = [c]"
  by (simp add: parse_rank_def expand_token_def)

lemma fen_row_of_fold:
  assumes "length (b ! row) = 8"
  shows "fen_row_of b row = fen_flush (fold fen_step (b ! row) ([], 0))"
proof -
  have "map (\<lambda>col. b ! row ! col) [0..<8] = b ! row"
    using assms by (metis map_nth)
  moreover have "fold (\<lambda>col. fen_step (b ! row ! col)) [0..<8] ([], 0)
               = fold fen_step (map (\<lambda>col. b ! row ! col) [0..<8]) ([], 0)"
    by (simp add: fold_map comp_def)
  ultimately show ?thesis by (simp add: fen_row_of_def)
qed

lemma fen_step_empty: "fen_step CHR ''.'' (acc, e) = (acc, Suc e)"
  by (simp add: fen_step_def)

lemma fen_step_piece:
  "c \<noteq> CHR ''.'' \<Longrightarrow> fen_step c (acc, e) = (if e > 0 then acc @ str e @ [c] else acc @ [c], 0)"
  by (simp add: fen_step_def)

lemma parse_fold:
  "e + length row < 10 \<Longrightarrow> list_all (\<lambda>c. \<not> is_digit c) row \<Longrightarrow>
   parse_rank (fen_flush (fold fen_step row (acc, e))) = parse_rank acc @ replicate e CHR ''.'' @ row"
proof (induction row arbitrary: acc e)
  case Nil
  then show ?case by (simp add: fen_flush_def parse_rank_append parse_rank_str)
next
  case (Cons c row)
  show ?case
  proof (cases "c = CHR ''.''")
    case True
    have "parse_rank (fen_flush (fold fen_step row (acc, Suc e)))
        = parse_rank acc @ replicate (Suc e) CHR ''.'' @ row"
      using Cons.prems by (intro Cons.IH) auto
    then show ?thesis using True
      by (simp add: fen_step_empty replicate_append_same)
  next
    case False
    have nd: "\<not> is_digit c" using Cons.prems by simp
    have rest: "\<And>a. parse_rank (fen_flush (fold fen_step row (a, 0))) = parse_rank a @ replicate 0 CHR ''.'' @ row"
      using Cons.prems by (intro Cons.IH) auto
    show ?thesis using False nd Cons.prems
      by (simp add: fen_step_piece rest parse_rank_append parse_rank_str parse_rank_piece)
  qed
qed


lemma not_digit_slash: "\<not> is_digit CHR ''/''"
  by (simp add: is_digit_def)

lemma not_digit_dot: "\<not> is_digit CHR ''.''"
  by (simp add: is_digit_def)

lemma not_digit_question: "\<not> is_digit CHR ''?''"
  by (simp add: is_digit_def)

lemma not_digit_piece_letter: "c \<in> set piece_letters \<Longrightarrow> \<not> is_digit c"
  by (auto simp: piece_letters_def is_digit_def)

lemma slash_not_piece_letter: "CHR ''/'' \<notin> set piece_letters"
  by (simp add: piece_letters_def)

lemma digit_char_not_slash: "n < 10 \<Longrightarrow> CHR ''/'' \<noteq> digit_char n"
  using is_digit_digit_char not_digit_slash by metis

lemma split_no_sep: "sep \<notin> set w \<Longrightarrow> split sep w = [w]"
  by (induction w) auto

lemma split_append_sep: "sep \<notin> set w \<Longrightarrow> split sep (w @ sep # rest) = w # split sep rest"
  by (induction w) auto

lemma split_join:
  "rows \<noteq> [] \<Longrightarrow> \<forall>r \<in> set rows. CHR ''/'' \<notin> set r \<Longrightarrow> split CHR ''/'' (join ''/'' rows) = rows"
proof (induction "''/''" rows rule: join.induct)
  case 1
  then show ?case by simp
next
  case (2 x)
  then show ?case by (simp add: split_no_sep)
next
  case (3 x y ys)
  then show ?case by (simp add: split_append_sep)
qed

lemma slash_free_fold:
  "CHR ''/'' \<notin> set acc \<Longrightarrow> CHR ''/'' \<notin> set row \<Longrightarrow> e + length row < 10 \<Longrightarrow>
   CHR ''/'' \<notin> set (fen_flush (fold fen_step row (acc, e)))"
proof (induction row arbitrary: acc e)
  case Nil
  then show ?case by (simp add: fen_flush_def str_digit digit_char_not_slash)
next
  case (Cons c row)
  show ?case
  proof (cases "c = CHR ''.''")
    case True
    have "CHR ''/'' \<notin> set (fen_flush (fold fen_step row (acc, Suc e)))"
      using Cons.prems by (intro Cons.IH) auto
    then show ?thesis using True by (simp add: fen_step_empty)
  next
    case False
    have "CHR ''/'' \<notin> set (fen_flush (fold fen_step row (if e > 0 then acc @ str e @ [c] else acc @ [c], 0)))"
      using Cons.prems by (intro Cons.IH) (auto simp: str_digit digit_char_not_slash)
    then show ?thesis using False by (simp add: fen_step_piece)
  qed
qed

lemma fen_rows_grid8:
  assumes "grid8 b"
  shows "fen_rows b = map (\<lambda>r. fen_flush (fold fen_step r ([], 0))) b"
proof -
  have len: "length b = 8" and rows: "\<And>i. i < 8 \<Longrightarrow> length (b ! i) = 8"
    using assms by (auto simp: grid8_def list_all_length)
  have "fen_rows b = map (\<lambda>i. fen_flush (fold fen_step (b ! i) ([], 0))) [0..<8]"
    unfolding fen_rows_def by (rule map_cong) (auto simp: fen_row_of_fold rows)
  also have "\<dots> = map (\<lambda>r. fen_flush (fold fen_step r ([], 0))) (map (\<lambda>i. b ! i) [0..<length b])"
    by (simp add: len comp_def)
  finally show ?thesis by (simp add: map_nth)
qed

lemma label_plain:
  assumes "c = CHR ''.'' \<or> c \<in> set piece_letters \<or> c = CHR ''?''"
  shows "\<not> is_digit c" and "c \<noteq> CHR ''/''"
proof -
  show "\<not> is_digit c"
    using assms not_digit_dot not_digit_question not_digit_piece_letter by blast
  show "c \<noteq> CHR ''/''"
    using assms slash_not_piece_letter by (elim disjE) auto
qed

lemma board_labels_row:
  assumes "board_labels b" "r \<in> set b"
  shows "list_all (\<lambda>c. \<not> is_digit c) r" and "CHR ''/'' \<notin> set r"
proof -
  have lab: "\<And>c. c \<in> set r \<Longrightarrow> c = CHR ''.'' \<or> c \<in> set piece_letters \<or> c = CHR ''?''"
    using assms unfolding board_labels_def list_all_iff by blast
  show "list_all (\<lambda>c. \<not> is_digit c) r"
    unfolding list_all_iff using lab label_plain(1) by blast
  show "CHR ''/'' \<notin> set r"
    using lab label_plain(2) by blast
qed

lemma known_board_labels: "known_labels b \<Longrightarrow> board_labels b"
  unfolding known_labels_def board_labels_def list_all_iff by blast

lemma split_fen_position:
  assumes "grid8 b" "board_labels b"
  shows "split CHR ''/'' (fen_position b) = fen_rows b"
proof -
  have ne: "fen_rows b \<noteq> []" by (simp add: fen_rows_def)
  have "\<forall>r \<in> set (fen_rows b). CHR ''/'' \<notin> set r"
  proof
    fix r assume "r \<in> set (fen_rows b)"
    then obtain row where row: "row \<in> set b" and r: "r = fen_flush (fold fen_step row ([], 0))"
      using assms(1) by (auto simp: fen_rows_grid8)
    have "length row = 8" using row assms(1) by (auto simp: grid8_def list_all_iff)
    then show "CHR ''/'' \<notin> set r"
      unfolding r using board_labels_row [OF assms(2) row] by (intro slash_free_fold) auto
  qed
  then show ?thesis unfolding fen_position_def using ne by (rule split_join [rotated])
qed

lemma parse_roundtrip:
  assumes "grid8 b" "board_labels b"
  shows "parse_position (fen_position b) = b"
proof -
  have "map parse_rank (fen_rows b) = map (\<lambda>r. r) b"
    unfolding fen_rows_grid8 [OF assms(1)] map_map
  proof (rule map_cong [OF refl])
    fix row assume row: "row \<in> set b"
    have "length row = 8" using row assms(1) by (auto simp: grid8_def list_all_iff)
    then have "parse_rank (fen_flush (fold fen_step row ([], 0))) = parse_rank [] @ replicate 0 CHR ''.'' @ row"
      using board_labels_row [OF assms(2) row] by (intro parse_fold) auto
    then show "(parse_rank \<circ> (\<lambda>r. fen_flush (fold fen_step r ([], 0)))) row = row"
      by (simp add: parse_rank_def)
  qed
  then show ?thesis
    by (simp add: parse_position_def split_fen_position [OF assms])
qed


lemma cells_encoded_length: "cells_encoded seg = length (parse_rank seg)"
  by (induction seg) (auto simp: cells_encoded_def parse_rank_def expand_token_def)

lemma nad_snoc:
  "no_adjacent_digits (a @ [c]) =
     (no_adjacent_digits a \<and> (a = [] \<or> \<not> (is_digit (last a) \<and> is_digit c)))"
  by (induction a rule: no_adjacent_digits.induct) auto

lemma nad_fold:
  "no_adjacent_digits acc \<Longrightarrow> acc = [] \<or> \<not> is_digit (last acc) \<Longrightarrow>
   list_all (\<lambda>c. \<not> is_digit c) row \<Longrightarrow> e + length row < 10 \<Longrightarrow>
   no_adjacent_digits (fen_flush (fold fen_step row (acc, e)))"
proof (induction row arbitrary: acc e)
  case Nil
  then show ?case by (auto simp: fen_flush_def str_digit nad_snoc)
next
  case (Cons c row)
  show ?case
  proof (cases "c = CHR ''.''")
    case True
    have "no_adjacent_digits (fen_flush (fold fen_step row (acc, Suc e)))"
      using Cons.prems by (intro Cons.IH) auto
    then show ?thesis using True by (simp add: fen_step_empty)
  next
    case False
    have nd: "\<not> is_digit c" using Cons.prems by simp
    let ?acc = "if e > 0 then acc @ str e @ [c] else acc @ [c]"
    have e: "e < 10" using Cons.prems by simp
    have 1: "no_adjacent_digits ?acc"
    proof (cases "e > 0")
      case True
      have "no_adjacent_digits ((acc @ [digit_char e]) @ [c])"
        unfolding nad_snoc [of "acc @ [digit_char e]"] using Cons.prems(1,2) nd
        by (auto simp: nad_snoc)
      then show ?thesis using True e by (simp add: str_digit)
    next
      case False
      then show ?thesis using Cons.prems(1) nd by (simp add: nad_snoc)
    qed
    have 2: "?acc = [] \<or> \<not> is_digit (last ?acc)" using nd by simp
    have "no_adjacent_digits (fen_flush (fold fen_step row (?acc, 0)))"
      using 1 2 Cons.prems by (intro Cons.IH) auto
    then show ?thesis using False by (simp add: fen_step_piece)
  qed
qed


text \<open>
  Claim C2. For an 8 by 8 board whose labels are Empty or pieces of known colour,
  reading the assembled position string back (split on the rank separator, expand the
  run-length digits, one character per piece) gives the board again, hence its sequence
  of 64 labels.
\<close>

theorem position_roundtrip:
  assumes "grid8 b" and "known_labels b"
  shows "parse_position (fen_position b) = b \<and>
         concat (parse_position (fen_position b)) = concat b \<and> length (concat b) = 64"
proof -
  have rt: "parse_position (fen_position b) = b"
    using assms known_board_labels by (intro parse_roundtrip)
  have "map length b = replicate 8 8"
    using assms(1) by (auto simp: grid8_def list_all_iff intro!: replicate_eqI)
  then have "length (concat b) = 64" by (simp add: length_concat sum_list_replicate)
  then show ?thesis using rt by simp
qed

theorem position_roundtrip_witness:
  "grid8 [''rnbq.bnr'', ''pppppppp'', ''........'', ''...P....'',
          ''..k.....'', ''........'', ''PPPPPPPP'', ''RNBQKBNR''] \<and>
   known_labels [''rnbq.bnr'', ''pppppppp'', ''........'', ''...P....'',
          ''..k.....'', ''........'', ''PPPPPPPP'', ''RNBQKBNR''] \<and>
   parse_position (fen_position [''rnbq.bnr'', ''pppppppp'', ''........'', ''...P....'',
          ''..k.....'', ''........'', ''PPPPPPPP'', ''RNBQKBNR''])
     = [''rnbq.bnr'', ''pppppppp'', ''........'', ''...P....'',
        ''..k.....'', ''........'', ''PPPPPPPP'', ''RNBQKBNR'']"
proof -
  let ?b = "[''rnbq.bnr'', ''pppppppp'', ''........'', ''...P....'',
             ''..k.....'', ''........'', ''PPPPPPPP'', ''RNBQKBNR'']"
  have g: "grid8 ?b" by (simp add: grid8_def)
  have k: "known_labels ?b" by (simp add: known_labels_def piece_letters_def)
  show ?thesis using g k position_roundtrip [OF g k] by simp
qed

text \<open>
  Claim C10. For an 8 by 8 board of Empty, piece letters and the placeholder of an
  unknown colour, the position string has eight rank segments; in each, the digit values
  and the number of other characters add up to 8, and no two digits are adjacent.
\<close>

theorem rank_segments:
  assumes "grid8 b" and "board_labels b"
  shows "length (split CHR ''/'' (fen_position b)) = 8 \<and>
         (\<forall>seg \<in> set (split CHR ''/'' (fen_position b)).
            cells_encoded seg = 8 \<and> no_adjacent_digits seg)"
proof -
  have sp: "split CHR ''/'' (fen_position b) = fen_rows b"
    using assms by (rule split_fen_position)
  have "cells_encoded seg = 8 \<and> no_adjacent_digits seg" if seg_in: "seg \<in> set (fen_rows b)" for seg
  proof -
    obtain row where row: "row \<in> set b" and seg: "seg = fen_flush (fold fen_step row ([], 0))"
      using seg_in assms(1) by (auto simp: fen_rows_grid8)
    have len: "length row = 8" using row assms(1) by (auto simp: grid8_def list_all_iff)
    have nd: "list_all (\<lambda>c. \<not> is_digit c) row" using assms(2) row by (rule board_labels_row)
    have "parse_rank seg = parse_rank [] @ replicate 0 CHR ''.'' @ row"
      unfolding seg using len nd by (intro parse_fold) auto
    then have "cells_encoded seg = 8"
      by (simp add: cells_encoded_length len parse_rank_def)
    moreover have "no_adjacent_digits seg"
      unfolding seg using len nd by (intro nad_fold) auto
    ultimately show ?thesis ..
  qed
  then show ?thesis by (simp add: sp fen_rows_def)
qed

theorem rank_segments_witness:
  "grid8 [''rnbq.bnr'', ''pppppppp'', ''........'', ''...P....'',
          ''..?.....'', ''........'', ''PPPPPPPP'', ''RNBQKBNR''] \<and>
   board_labels [''rnbq.bnr'', ''pppppppp'', ''........'', ''...P....'',
          ''..?.....'', ''........'', ''PPPPPPPP'', ''RNBQKBNR''] \<and>
   cells_encoded ''2?5'' = 8 \<and> no_adjacent_digits ''2?5''"
proof -
  let ?b = "[''rnbq.bnr'', ''pppppppp'', ''........'', ''...P....'',
             ''..?.....'', ''........'', ''PPPPPPPP'', ''RNBQKBNR'']"
  have g: "grid8 ?b" by (simp add: grid8_def)
  have k: "board_labels ?b" by (simp add: board_labels_def piece_letters_def)
  have f: "fen_position ?b = ''rnbq1bnr/pppppppp/8/3P4/2?5/8/PPPPPPPP/RNBQKBNR''"
    by code_simp
  have "''2?5'' \<in> set (split CHR ''/'' (fen_position ?b))"
    unfolding f by simp
  then show ?thesis using g k rank_segments [OF g k] by blast
qed

section \<open>Corner order\<close>

lemma argmin_less: "xs \<noteq> [] \<Longrightarrow> argmin xs < length xs"
  by (induction xs rule: argmin.induct) (auto simp: Let_def)

lemma argmax_less: "xs \<noteq> [] \<Longrightarrow> argmax xs < length xs"
  by (induction xs rule: argmax.induct) (auto simp: Let_def)

lemma argmin_least: "x \<in> set xs \<Longrightarrow> xs ! argmin xs \<le> x"
proof (induction xs arbitrary: x rule: argmin.induct)
  case 1
  then show ?case by simp
next
  case (2 y)
  then show ?case by simp
next
  case (3 a b bs)
  then show ?case by (fastforce simp: Let_def)
qed

lemma argmax_greatest: "x \<in> set xs \<Longrightarrow> x \<le> xs ! argmax xs"
proof (induction xs arbitrary: x rule: argmax.induct)
  case 1
  then show ?case by simp
next
  case (2 y)
  then show ?case by simp
next
  case (3 a b bs)
  then show ?case by (fastforce simp: Let_def)
qed

lemma attains_min_argmin:
  assumes "pts \<noteq> []"
  shows "attains_min f pts (pts ! argmin (map f pts))"
proof -
  let ?i = "argmin (map f pts)"
  have i: "?i < length pts" using argmin_less [of "map f pts"] assms by simp
  have "f (pts ! ?i) \<le> f q" if "q \<in> set pts" for q
    using argmin_least [of "f q" "map f pts"] that i by simp
  then show ?thesis using i by (simp add: attains_min_def)
qed

lemma attains_max_argmax:
  assumes "pts \<noteq> []"
  shows "attains_max f pts (pts ! argmax (map f pts))"
proof -
  let ?i = "argmax (map f pts)"
  have i: "?i < length pts" using argmax_less [of "map f pts"] assms by simp
  have "f q \<le> f (pts ! ?i)" if "q \<in> set pts" for q
    using argmax_greatest [of "f q" "map f pts"] that i by simp
  then show ?thesis using i by (simp add: attains_max_def)
qed


text \<open>
  Claim C3, as amended. For four corner points, \<open>order_points\<close> returns top-left with
  the least and bottom-right with the greatest \<open>x + y\<close>; top-right is a point with the
  least \<open>y - x\<close> (that is, the greatest \<open>x - y\<close>) and bottom-left a point with the
  greatest \<open>y - x\<close> (the least \<open>x - y\<close>): the difference is second coordinate minus
  first, the opposite of the sign the claim gives.
\<close>

theorem order_points_corners:
  assumes "length pts = 4"
  shows "\<exists>rect. order_points pts = Inr rect \<and> corners_by_difference pts rect"
proof -
  have ne: "pts \<noteq> []" using assms by auto
  show ?thesis
    using ne attains_min_argmin [OF ne] attains_max_argmax [OF ne]
    by (simp add: order_points_def corners_by_difference_def Let_def numeral_3_eq_3 numeral_2_eq_2)
qed

theorem order_points_corners_witness:
  "length [(0, 0), (10, 0), (10, 10), (0, 10)] = 4 \<and>
   (\<exists>rect. order_points [(0, 0), (10, 0), (10, 10), (0, 10)] = Inr rect \<and> corners_by_difference [(0, 0), (10, 0), (10, 10), (0, 10)] rect)"
  using order_points_corners [of "[(0, 0), (10, 0), (10, 10), (0, 10)]"] by simp

text \<open>
  On the upright square the source puts \<open>(10, 0)\<close> at top-right, the point of greatest
  \<open>x - y\<close>; the rule as the claim words it asks for the point of least \<open>x - y\<close>.
\<close>

theorem corners_as_specified_counterexample:
  "order_points [(0, 0), (10, 0), (10, 10), (0, 10)] = Inr [(0, 0), (10, 0), (10, 10), (0, 10)] \<and> \<not> corners_as_specified [(0, 0), (10, 0), (10, 10), (0, 10)] [(0, 0), (10, 0), (10, 10), (0, 10)]"
  by (simp add: order_points_def corners_as_specified_def attains_min_def attains_max_def)

lemma min_same:
  assumes "set pts' = set pts" "pts \<noteq> []" "one_min f pts"
  shows "pts' ! argmin (map f pts') = pts ! argmin (map f pts)"
proof -
  have ne': "pts' \<noteq> []" using assms(1,2) by auto
  have a: "attains_min f pts (pts ! argmin (map f pts))" using assms(2) by (rule attains_min_argmin)
  have "attains_min f pts' (pts' ! argmin (map f pts'))" using ne' by (rule attains_min_argmin)
  then have b: "attains_min f pts (pts' ! argmin (map f pts'))"
    by (simp add: attains_min_def assms(1))
  show ?thesis using a b assms(3) unfolding one_min_def attains_min_def by blast
qed

lemma max_same:
  assumes "set pts' = set pts" "pts \<noteq> []" "one_max f pts"
  shows "pts' ! argmax (map f pts') = pts ! argmax (map f pts)"
proof -
  have ne': "pts' \<noteq> []" using assms(1,2) by auto
  have a: "attains_max f pts (pts ! argmax (map f pts))" using assms(2) by (rule attains_max_argmax)
  have "attains_max f pts' (pts' ! argmax (map f pts'))" using ne' by (rule attains_max_argmax)
  then have b: "attains_max f pts (pts' ! argmax (map f pts'))"
    by (simp add: attains_max_def assms(1))
  show ?thesis using a b assms(3) unfolding one_max_def attains_max_def by blast
qed


text \<open>
  Claim C8, as amended. When each of the four extremes (least and greatest \<open>x + y\<close>,
  least and greatest \<open>y - x\<close>) is attained by a single point, every permutation of
  the four points is given the same corner order.
\<close>

theorem order_points_permutation:
  assumes "length pts = 4" and "mset pts' = mset pts" and "extremes_unique pts"
  shows "order_points pts' = order_points pts"
proof -
  have ne: "pts \<noteq> []" using assms(1) by auto
  have st: "set pts' = set pts" using assms(2) by (rule mset_eq_setD)
  then have ne': "pts' \<noteq> []" using ne by auto
  show ?thesis
    using assms(3) ne ne' min_same [OF st ne] max_same [OF st ne]
    by (simp add: order_points_def extremes_unique_def Let_def)
qed

theorem order_points_permutation_witness:
  "length [(0, 0), (10, 1), (11, 12), (2, 9) :: point] = 4 \<and>
   mset [(2, 9), (0, 0), (11, 12), (10, 1) :: point] = mset [(0, 0), (10, 1), (11, 12), (2, 9)] \<and>
   extremes_unique [(0, 0), (10, 1), (11, 12), (2, 9)] \<and>
   order_points [(2, 9), (0, 0), (11, 12), (10, 1)] = order_points [(0, 0), (10, 1), (11, 12), (2, 9)]"
proof -
  have 1: "length [(0, 0), (10, 1), (11, 12), (2, 9) :: point] = 4" by simp
  have 2: "mset [(2, 9), (0, 0), (11, 12), (10, 1) :: point] = mset [(0, 0), (10, 1), (11, 12), (2, 9)]"
    by simp
  have 3: "extremes_unique [(0, 0), (10, 1), (11, 12), (2, 9)]"
    by (simp add: extremes_unique_def one_min_def one_max_def attains_min_def attains_max_def)
  show ?thesis using 1 2 3 order_points_permutation [OF 1 2 3] by simp
qed

text \<open>
  A board turned by 45 degrees: two corners share the least \<open>x + y\<close>, and the corner
  order depends on which of them comes first.
\<close>

theorem order_points_permutation_counterexample:
  "mset [(0, 5), (5, 0), (10, 5), (5, 10) :: point] = mset [(5, 0), (10, 5), (5, 10), (0, 5)] \<and>
   order_points [(0, 5), (5, 0), (10, 5), (5, 10)] \<noteq> order_points [(5, 0), (10, 5), (5, 10), (0, 5)]"
  by (simp add: order_points_def)

section \<open>The board contour\<close>

lemma step_accept:
  "contourArea cv x > m \<Longrightarrow> four_sided cv x \<Longrightarrow>
   board_contour_step cv x (bc, m) = (Some (approx_of cv x), contourArea cv x)"
  by (simp add: board_contour_step_def four_sided_def approx_of_def Let_def)

lemma step_reject:
  "\<not> (contourArea cv x > m \<and> four_sided cv x) \<Longrightarrow> board_contour_step cv x (bc, m) = (bc, m)"
  by (auto simp: board_contour_step_def four_sided_def approx_of_def Let_def)

lemma first_largest_last:
  assumes "qualifies cv x"
    and "\<And>j. j < length cs \<Longrightarrow> qualifies cv (cs ! j) \<Longrightarrow> contourArea cv (cs ! j) < contourArea cv x"
  shows "first_largest cv (cs @ [x]) (length cs)"
  unfolding first_largest_def using assms
  by (auto simp: nth_append less_Suc_eq dest: less_imp_le)

lemma first_largest_keep:
  assumes "first_largest cv cs i"
    and "qualifies cv x \<Longrightarrow> contourArea cv x \<le> contourArea cv (cs ! i)"
  shows "first_largest cv (cs @ [x]) i"
  using assms unfolding first_largest_def
  by (auto simp: nth_append less_Suc_eq)

lemma locate_invariant:
  "\<exists>bc m. fold (board_contour_step cv) cs (None, 0) = (bc, m) \<and> 0 \<le> m \<and>
     (if \<exists>c \<in> set cs. qualifies cv c
      then \<exists>i. first_largest cv cs i \<and> bc = Some (approx_of cv (cs ! i)) \<and> m = contourArea cv (cs ! i)
      else bc = None \<and> m = 0)"
proof (induction cs rule: rev_induct)
  case Nil
  then show ?case by simp
next
  case (snoc x cs)
  then obtain bc m where st: "fold (board_contour_step cv) cs (None, 0) = (bc, m)" and m0: "0 \<le> m"
    and inv: "if \<exists>c \<in> set cs. qualifies cv c
      then \<exists>i. first_largest cv cs i \<and> bc = Some (approx_of cv (cs ! i)) \<and> m = contourArea cv (cs ! i)
      else bc = None \<and> m = 0"
    by blast
  have bound: "contourArea cv (cs ! j) \<le> m" if "j < length cs" "qualifies cv (cs ! j)" for j
  proof -
    have "\<exists>c \<in> set cs. qualifies cv c" using that by auto
    then obtain i where "first_largest cv cs i" "m = contourArea cv (cs ! i)" using inv by auto
    then show ?thesis using that by (simp add: first_largest_def)
  qed
  show ?case
  proof (cases "contourArea cv x > m \<and> four_sided cv x")
    case True
    then have q: "qualifies cv x" using m0 by (simp add: qualifies_def)
    have "first_largest cv (cs @ [x]) (length cs)"
      using q bound True by (intro first_largest_last) force+
    then show ?thesis using True q m0 st by (auto simp: step_accept)
  next
    case False
    then have st': "fold (board_contour_step cv) (cs @ [x]) (None, 0) = (bc, m)"
      using st by (simp add: step_reject)
    show ?thesis
    proof (cases "\<exists>c \<in> set cs. qualifies cv c")
      case True
      then obtain i where i: "first_largest cv cs i" "bc = Some (approx_of cv (cs ! i))" "m = contourArea cv (cs ! i)"
        using inv by auto
      have "first_largest cv (cs @ [x]) i"
        using i(1) False i(3) by (intro first_largest_keep) (auto simp: qualifies_def)
      moreover have "(cs @ [x]) ! i = cs ! i" using i(1) by (simp add: first_largest_def nth_append)
      ultimately show ?thesis using st' m0 i True by auto
    next
      case none: False
      then have "bc = None" "m = 0" using inv by auto
      moreover have "\<not> qualifies cv x" using False \<open>m = 0\<close> by (auto simp: qualifies_def)
      ultimately show ?thesis using st' none by auto
    qed
  qed
qed


text \<open>
  Claim C4, as amended. The locator finds nothing exactly when no contour has a positive
  area and a four-vertex approximation (tolerance 2 percent of the perimeter); otherwise
  it returns the approximation of the first contour of largest area among those, so a
  shared largest area is resolved in favour of the earliest contour. When it finds
  nothing, the script ends there and the rectification is not reached.
\<close>

theorem locator:
  "(find_board_contour cv contours = None \<longleftrightarrow> \<not> (\<exists>c \<in> set contours. qualifies cv c)) \<and>
   (\<forall>r. find_board_contour cv contours = Some r \<longrightarrow>
      (\<exists>i. first_largest cv contours i \<and> r = approx_of cv (contours ! i))) \<and>
   (find_board_contour cv (findContours cv (Canny cv (GaussianBlur cv (cvtColor cv img)) 50 150)) = None
      \<longrightarrow> step0 cv (Some img) = Inl BoardContourNotFound)"
proof -
  obtain bc m where "fold (board_contour_step cv) contours (None, 0) = (bc, m)"
    and "if \<exists>c \<in> set contours. qualifies cv c
      then \<exists>i. first_largest cv contours i \<and> bc = Some (approx_of cv (contours ! i)) \<and> m = contourArea cv (contours ! i)
      else bc = None \<and> m = 0"
    using locate_invariant [of cv contours] by blast
  then have 1: "(find_board_contour cv contours = None \<longleftrightarrow> \<not> (\<exists>c \<in> set contours. qualifies cv c))"
    and 2: "(\<forall>r. find_board_contour cv contours = Some r \<longrightarrow>
      (\<exists>i. first_largest cv contours i \<and> r = approx_of cv (contours ! i)))"
    by (auto simp: find_board_contour_def split: if_splits)
  have 3: "find_board_contour cv (findContours cv (Canny cv (GaussianBlur cv (cvtColor cv img)) 50 150)) = None
      \<longrightarrow> step0 cv (Some img) = Inl BoardContourNotFound"
    by (simp add: step0_def)
  show ?thesis using 1 2 3 by blast
qed

theorem locator_witness:
  "(\<exists>c \<in> set [(50, [(0, 0), (10, 0), (10, 10), (0, 10)]), (100 :: real, [(5, 0), (10, 5), (5, 10), (0, 5)]), (100, [(0, 0), (10, 0), (10, 10), (0, 10)])]. qualifies plain_cv c) \<and>
   find_board_contour plain_cv [(50, [(0, 0), (10, 0), (10, 10), (0, 10)]), (100, [(5, 0), (10, 5), (5, 10), (0, 5)]), (100, [(0, 0), (10, 0), (10, 10), (0, 10)])] = Some [(5, 0), (10, 5), (5, 10), (0, 5)] \<and>
   (\<exists>i. first_largest plain_cv [(50, [(0, 0), (10, 0), (10, 10), (0, 10)]), (100, [(5, 0), (10, 5), (5, 10), (0, 5)]), (100, [(0, 0), (10, 0), (10, 10), (0, 10)])] i \<and>
        [(5, 0), (10, 5), (5, 10), (0, 5)] = approx_of plain_cv ([(50, [(0, 0), (10, 0), (10, 10), (0, 10)]), (100, [(5, 0), (10, 5), (5, 10), (0, 5)]), (100, [(0, 0), (10, 0), (10, 10), (0, 10)])] ! i)) \<and>
   find_board_contour plain_cv (findContours plain_cv
      (Canny plain_cv (GaussianBlur plain_cv (cvtColor plain_cv [])) 50 150)) = None \<and>
   step0 plain_cv (Some []) = Inl BoardContourNotFound"
proof -
  have f: "find_board_contour plain_cv [(50, [(0, 0), (10, 0), (10, 10), (0, 10)]), (100, [(5, 0), (10, 5), (5, 10), (0, 5)]), (100, [(0, 0), (10, 0), (10, 10), (0, 10)])] = Some [(5, 0), (10, 5), (5, 10), (0, 5)]"
    by (simp add: find_board_contour_def board_contour_step_def plain_cv_def)
  have q: "\<exists>c \<in> set [(50, [(0, 0), (10, 0), (10, 10), (0, 10)]), (100 :: real, [(5, 0), (10, 5), (5, 10), (0, 5)]), (100, [(0, 0), (10, 0), (10, 10), (0, 10)])]. qualifies plain_cv c"
    by (simp add: qualifies_def four_sided_def approx_of_def plain_cv_def)
  have n: "find_board_contour plain_cv (findContours plain_cv
      (Canny plain_cv (GaussianBlur plain_cv (cvtColor plain_cv [])) 50 150)) = None"
    by (simp add: find_board_contour_def plain_cv_def)
  show ?thesis
    using f q n locator [of plain_cv "[(50, [(0, 0), (10, 0), (10, 10), (0, 10)]), (100, [(5, 0), (10, 5), (5, 10), (0, 5)]), (100, [(0, 0), (10, 0), (10, 10), (0, 10)])]" "[]"]
    by simp
qed

text \<open>
  Two four-sided contours of the same, largest area: the source keeps the first, where
  the claim has the locator find nothing.
\<close>

theorem locator_as_specified_counterexample:
  "find_board_contour plain_cv [(100, [(0, 0), (10, 0), (10, 10), (0, 10)]), (100, [(20, 0), (30, 0), (30, 10), (20, 10)])] = Some [(0, 0), (10, 0), (10, 10), (0, 10)] \<and>
   locator_as_specified plain_cv [(100, [(0, 0), (10, 0), (10, 10), (0, 10)]), (100, [(20, 0), (30, 0), (30, 10), (20, 10)])] = None"
  by (simp add: find_board_contour_def board_contour_step_def locator_as_specified_def
      four_sided_def approx_of_def plain_cv_def)

section \<open>Rectification\<close>

text \<open>
  Claim C7, as amended. The rectifier does not examine the corner geometry. For any
  four points, degenerate or not, the corner order is computed, the warped image is
  returned whenever the two OpenCV calls return, and the only failures are the
  exceptions those calls raise.
\<close>

theorem rectify_unchecked:
  assumes "length pts = 4"
  shows "\<exists>rect. order_points pts = Inr rect \<and>
           (\<forall>M w. getPerspectiveTransform cv rect dst = Inr M \<and>
                  warpPerspective cv img M (BOARD_SIZE, BOARD_SIZE) = Inr w
                  \<longrightarrow> rectify cv img pts = Inr w) \<and>
           (\<forall>e. rectify cv img pts = Inl e \<longrightarrow>
                  getPerspectiveTransform cv rect dst = Inl e \<or>
                  (\<exists>M. getPerspectiveTransform cv rect dst = Inr M \<and>
                       warpPerspective cv img M (BOARD_SIZE, BOARD_SIZE) = Inl e))"
proof -
  have "pts \<noteq> []" using assms by auto
  then obtain rect where rect: "order_points pts = Inr rect"
    by (simp add: order_points_def Let_def)
  show ?thesis
    by (rule exI [of _ rect]) (auto simp: rect rectify_def split: sum.splits)
qed

theorem rectify_unchecked_witness:
  "length [(5, 0), (10, 5), (5, 10), (0, 5)] = 4 \<and>
   order_points [(5, 0), (10, 5), (5, 10), (0, 5)] = Inr [(5, 0), (5, 0), (10, 5), (5, 10)] \<and>
   degenerate [(5, 0), (5, 0), (10, 5), (5, 10)] \<and>
   rectify plain_cv [(100, [(5, 0), (10, 5), (5, 10), (0, 5)])] [(5, 0), (10, 5), (5, 10), (0, 5)] = Inr [(100, [(5, 0), (10, 5), (5, 10), (0, 5)])]"
proof -
  have o: "order_points [(5, 0), (10, 5), (5, 10), (0, 5)] = Inr [(5, 0), (5, 0), (10, 5), (5, 10)]"
    by (simp add: order_points_def)
  have d: "degenerate [(5, 0), (5, 0), (10, 5), (5, 10)]"
    by (simp add: degenerate_def collinear_def)
  show ?thesis
    using o d rectify_unchecked [of "[(5, 0), (10, 5), (5, 10), (0, 5)]" plain_cv "[(100, [(5, 0), (10, 5), (5, 10), (0, 5)])]"]
    by (simp add: plain_cv_def)
qed

text \<open>
  The outline of a board turned by 45 degrees: \<open>order_points\<close> names one point both
  top-left and top-right, and the stage still ends with an image.
\<close>

theorem rectifier_as_specified_counterexample:
  "\<not> rectifier_as_specified plain_cv [(100, [(5, 0), (10, 5), (5, 10), (0, 5)])] [(5, 0), (10, 5), (5, 10), (0, 5)]"
  by (simp add: rectifier_as_specified_def order_points_def degenerate_def collinear_def
      rectify_def plain_cv_def)

section \<open>Cell classification\<close>

lemma fold_min_le: "fold min ps (p :: 8 word) \<le> p"
proof (induction ps arbitrary: p)
  case Nil
  show ?case by simp
next
  case (Cons a ps)
  have "fold min ps (min a p) \<le> min a p" by (rule Cons.IH)
  then show ?case by (simp add: min.commute)
qed

lemma fold_min_Min: "fold min ps (p :: 8 word) = Min (set (p # ps))"
proof (induction ps arbitrary: p)
  case Nil
  show ?case by simp
next
  case (Cons a ps)
  have "fold min (a # ps) p = Min (set (min a p # ps))" using Cons.IH by simp
  also have "\<dots> = Min (set (p # a # ps))"
    by (cases "ps = []") (auto simp: Min_insert min.commute min.left_commute min.assoc)
  finally show ?case .
qed

lemma fold_max_Max: "fold max ps (p :: 8 word) = Max (set (p # ps))"
proof (induction ps arbitrary: p)
  case Nil
  show ?case by simp
next
  case (Cons a ps)
  have "fold max (a # ps) p = Max (set (max a p # ps))" using Cons.IH by simp
  also have "\<dots> = Max (set (p # a # ps))"
    by (cases "ps = []") (auto simp: Max_insert max.commute max.left_commute max.assoc)
  finally show ?case .
qed

lemma unat_Min:
  assumes "finite S" "S \<noteq> {}"
  shows "unat (Min S :: 8 word) = Min (unat ` S)"
  by (rule mono_Min_commute) (auto simp: mono_def word_le_nat_alt assms)

lemma unat_Max:
  assumes "finite S" "S \<noteq> {}"
  shows "unat (Max S :: 8 word) = Max (unat ` S)"
  by (rule mono_Max_commute) (auto simp: mono_def word_le_nat_alt assms)

lemma spread_word:
  assumes "px \<noteq> []"
  shows "(Max (set px) - Min (set px) < (100 :: 8 word))
       = (Max (unat ` set px) - Min (unat ` set px) < (100 :: nat))"
proof -
  have le: "Min (set px) \<le> Max (set px)" using assms by (simp add: Min_le_iff)
  have "unat (Max (set px) - Min (set px)) = unat (Max (set px)) - unat (Min (set px))"
    using le by (simp add: unat_sub)
  then show ?thesis using assms by (simp add: word_less_nat_alt unat_Min unat_Max)
qed


lemma count_pixels_below:
  "count_pixels (\<lambda>p. p < t) g = length (filter (\<lambda>p. unat p < unat t) (concat g))"
  by (simp add: count_pixels_def word_less_nat_alt)

lemma count_pixels_above:
  "count_pixels (\<lambda>p. p > t) g = length (filter (\<lambda>p. unat t < unat p) (concat g))"
  by (simp add: count_pixels_def word_less_nat_alt)


text \<open>
  Claim C5. For a cell with at least one pixel, \<open>is_cell_empty\<close> answers Empty exactly
  when both hold: the pixels of the blurred cell below 80 (light cell) or above 180 (dark
  cell) are less than 0.15 of all pixels, and the largest minus the smallest blurred
  pixel is below 100. Failing either, the answer is Occupied.
\<close>

theorem occupancy_decision:
  assumes "px = concat (GaussianBlur5 cv (cvtColor_gray cv cell))" and "px \<noteq> []"
    and "total_pixels = shape0 (cvtColor_gray cv cell) * shape1 (cvtColor_gray cv cell)" and "0 < total_pixels"
  shows "is_cell_empty cv cell cell_color =
           Inr (real (length (filter (\<lambda>p. if cell_color = ''light'' then unat p < 80
                                             else 180 < unat p) px)) / real total_pixels < 0.15
                \<and> Max (unat ` set px) - Min (unat ` set px) < 100)"
proof -
  obtain p ps where pps: "px = p # ps" using assms(2) by (cases px) auto
  have mn: "np_min (GaussianBlur5 cv (cvtColor_gray cv cell)) = Inr (Min (set px))"
    unfolding np_min_def assms(1) [symmetric] pps by (simp add: fold_min_Min)
  have mx: "np_max (GaussianBlur5 cv (cvtColor_gray cv cell)) = Inr (Max (set px))"
    unfolding np_max_def assms(1) [symmetric] pps by (simp add: fold_max_Max)
  have ratio: "lt (true_divide c total_pixels) 0.15 = (real c / real total_pixels < 0.15)" for c
    using assms(4) by (simp add: lt_def true_divide_def)
  show ?thesis
    unfolding is_cell_empty_def Let_def mn mx sum.case assms(3) [symmetric] ratio
      spread_word [OF assms(2)] count_pixels_below count_pixels_above assms(1) [symmetric]
    by simp
qed


theorem occupancy_decision_witness:
  "concat (GaussianBlur5 plain_cell (cvtColor_gray plain_cell grey_piece)) = [130, 255, 20, 130] \<and>
   shape0 (cvtColor_gray plain_cell grey_piece) * shape1 (cvtColor_gray plain_cell grey_piece) = 4 \<and>
   is_cell_empty plain_cell grey_piece ''light'' = Inr False \<and>
   is_cell_empty plain_cell empty_cell ''light'' = Inr True"
proof -
  have 1: "[130, 255, 20, 130] = concat (GaussianBlur5 plain_cell (cvtColor_gray plain_cell grey_piece))"
    by (simp add: plain_cell_def grey_piece_def)
  have 2: "4 = shape0 (cvtColor_gray plain_cell grey_piece) * shape1 (cvtColor_gray plain_cell grey_piece)"
    by (simp add: plain_cell_def grey_piece_def shape0_def shape1_def)
  have 3: "[200, 200, 200, 200] = concat (GaussianBlur5 plain_cell (cvtColor_gray plain_cell empty_cell))"
    by (simp add: plain_cell_def empty_cell_def)
  have 4: "4 = shape0 (cvtColor_gray plain_cell empty_cell) * shape1 (cvtColor_gray plain_cell empty_cell)"
    by (simp add: plain_cell_def empty_cell_def shape0_def shape1_def)
  show ?thesis
    using occupancy_decision [OF 1 _ 2, of "''light''"] occupancy_decision [OF 3 _ 4, of "''light''"]
      1 [symmetric] 2 [symmetric]
    by simp
qed


lemma gt_true_divide: "0 \<le> t \<Longrightarrow> gt (true_divide a b) t = (t < real a / real b)"
  by (simp add: gt_def true_divide_def)

lemma no_contour_no_fill_light:
  assumes "\<forall>p \<in> set (concat (threshold_binary_inv 100 g)). p = 0"
  shows "count_pixels (\<lambda>p. p < 100) g = 0"
proof -
  have "\<not> p < 100" if "p \<in> set (concat g)" for p
  proof -
    have "(if p > 100 then 0 else 255 :: 8 word) \<in> set (concat (threshold_binary_inv 100 g))"
      using that by (auto simp: threshold_binary_inv_def)
    then have "(if p > 100 then 0 else 255 :: 8 word) = 0" using assms by blast
    then have "p > 100" by (simp split: if_splits)
    then show ?thesis by simp
  qed
  then show ?thesis by (simp add: count_pixels_def)
qed

lemma no_contour_no_fill_dark:
  assumes "\<forall>p \<in> set (concat (threshold_binary 150 g)). p = 0"
  shows "count_pixels (\<lambda>p. p > 150) g = 0"
proof -
  have "\<not> p > 150" if "p \<in> set (concat g)" for p
  proof -
    have "(if p > 150 then 255 else 0 :: 8 word) \<in> set (concat (threshold_binary 150 g))"
      using that by (auto simp: threshold_binary_def)
    then have "(if p > 150 then 255 else 0 :: 8 word) = 0" using assms by blast
    then show ?thesis by (simp split: if_splits)
  qed
  then show ?thesis by (simp add: count_pixels_def)
qed

lemma upper_pieces:
  "upper CHR ''r'' = CHR ''R''" "upper CHR ''q'' = CHR ''Q''" "upper CHR ''n'' = CHR ''N''"
  "upper CHR ''b'' = CHR ''B''" "upper CHR ''p'' = CHR ''P''"
  by code_simp+

lemma lower_pieces:
  "lower CHR ''r'' = CHR ''r''" "lower CHR ''q'' = CHR ''q''" "lower CHR ''n'' = CHR ''n''"
  "lower CHR ''b'' = CHR ''b''" "lower CHR ''p'' = CHR ''p''"
  by code_simp+


text \<open>
  Claim C6. Provided OpenCV finds a contour whenever the binary picture has a non-zero
  pixel, \<open>guess_piece_type\<close> follows the table: fill above 0.6 with the bounding box
  of the largest contour taller than 1.2 times its width gives Rook, fill above 0.6
  otherwise Queen, fill above 0.4 Knight, fill above 0.2 Bishop, anything else Pawn.
  For every input whatever, the result is not King, in either case.
\<close>

theorem piece_type_table:
  assumes "gray = cvtColor_gray cv cell"
    and "binary = (if cell_color = ''light'' then threshold_binary_inv 100 gray
                   else threshold_binary 150 gray)"
    and "filled = length (filter (\<lambda>p. if cell_color = ''light'' then unat p < 100
                                        else 150 < unat p) (concat gray))"
    and "fill = real filled / real (shape0 gray * shape1 gray)"
    and "tall = (case findContours_ext cv binary of
                   [] \<Rightarrow> False
                 | c # cs \<Rightarrow>
                     (case boundingRect cv (max_key (contourArea_of cv) c cs) of
                        (x, y, w, h) \<Rightarrow> 0 < w \<and> 1.2 < real_of_int h / real_of_int w))"
  shows "((findContours_ext cv binary = [] \<longrightarrow> (\<forall>p \<in> set (concat binary). p = 0)) \<longrightarrow>
          guess_piece_type cv cell piece_color cell_color =
            (if 0.6 < fill then (if tall then CHR ''r'' else CHR ''q'')
             else if 0.4 < fill then CHR ''n''
             else if 0.2 < fill then CHR ''b''
             else CHR ''p'')) \<and>
         guess_piece_type cv cell piece_color cell_color \<noteq> CHR ''k'' \<and>
         upper (guess_piece_type cv cell piece_color cell_color) \<noteq> CHR ''K'' \<and>
         lower (guess_piece_type cv cell piece_color cell_color) \<noteq> CHR ''k''"
proof -
  let ?g = "guess_piece_type cv cell piece_color cell_color"
  have range: "?g \<in> {CHR ''r'', CHR ''q'', CHR ''n'', CHR ''b'', CHR ''p''}"
    by (auto simp: guess_piece_type_def Let_def split: list.splits prod.splits)
  have king: "?g \<noteq> CHR ''k'' \<and> upper ?g \<noteq> CHR ''K'' \<and> lower ?g \<noteq> CHR ''k''"
    using range by (auto simp: upper_pieces lower_pieces)
  have filled: "filled = (if cell_color = ''light'' then count_pixels (\<lambda>p. p < 100) gray
                          else count_pixels (\<lambda>p. p > 150) gray)"
    by (simp add: assms(3) count_pixels_below count_pixels_above)
  have table: "?g = (if 0.6 < fill then (if tall then CHR ''r'' else CHR ''q'')
             else if 0.4 < fill then CHR ''n''
             else if 0.2 < fill then CHR ''b''
             else CHR ''p'')"
    if lib: "findContours_ext cv binary = [] \<longrightarrow> (\<forall>p \<in> set (concat binary). p = 0)"
  proof (cases "findContours_ext cv binary")
    case Nil
    then have zero: "\<forall>p \<in> set (concat binary). p = 0" using lib by simp
    have "filled = 0"
      using zero no_contour_no_fill_light [of gray] no_contour_no_fill_dark [of gray]
      unfolding filled assms(2) by (simp split: if_splits)
    then have "fill = 0" by (simp add: assms(4))
    moreover have "?g = CHR ''p''"
      using Nil unfolding guess_piece_type_def Let_def assms(1,2) by simp
    ultimately show ?thesis by simp
  next
    case (Cons c cs)
    obtain x y w h where br: "boundingRect cv (max_key (contourArea_of cv) c cs) = (x, y, w, h)"
      by (cases "boundingRect cv (max_key (contourArea_of cv) c cs)") auto
    have t: "tall = (0 < w \<and> 1.2 < real_of_int h / real_of_int w)"
      by (simp add: assms(5) Cons br)
    have "?g = (if gt (true_divide filled (shape0 gray * shape1 gray)) 0.6 then
                   (if (if w > 0 then real_of_int h / real_of_int w else 0) > 1.2
                    then CHR ''r'' else CHR ''q'')
                else if gt (true_divide filled (shape0 gray * shape1 gray)) 0.4 then CHR ''n''
                else if gt (true_divide filled (shape0 gray * shape1 gray)) 0.2 then CHR ''b''
                else CHR ''p'')"
      using Cons br unfolding guess_piece_type_def Let_def filled assms(1,2) by simp
    then show ?thesis by (simp add: gt_true_divide t assms(4))
  qed
  show ?thesis using table king by blast
qed

theorem piece_type_table_witness:
  "findContours_ext plain_cell (threshold_binary_inv 100 (cvtColor_gray plain_cell tall_piece))
     \<noteq> [] \<and>
   guess_piece_type plain_cell tall_piece CHR ''b'' ''light'' = CHR ''r''"
proof -
  have c: "findContours_ext plain_cell (threshold_binary_inv 100 (cvtColor_gray plain_cell tall_piece))
     = [(0, 0, 2, 3)]"
    by (simp add: plain_cell_def tall_piece_def threshold_binary_inv_def shape0_def shape1_def)
  show ?thesis
    using piece_type_table [where cv = plain_cell and cell = tall_piece
        and cell_color = "''light''" and piece_color = "CHR ''b''", OF refl refl refl refl refl]
    by (simp add: c) (simp add: plain_cell_def tall_piece_def shape0_def shape1_def)
qed

section \<open>The analysis of the 64 cells\<close>

lemma for_each_append:
  "for_each (xs @ ys) body s =
     (case for_each xs body s of Inl e \<Rightarrow> Inl e | Inr s1 \<Rightarrow> for_each ys body s1)"
  by (induction xs arbitrary: s) (auto split: sum.splits)

lemma for_each_upt_rule:
  assumes step: "\<And>i s s'. i < n \<Longrightarrow> P i s \<Longrightarrow> body i s = Inr s' \<Longrightarrow> P (Suc i) s'"
    and init: "P 0 s"
    and run: "for_each [0..<n] body s = Inr s'"
  shows "P n s'"
  using step run
proof (induction n arbitrary: s')
  case 0
  then show ?case using init by simp
next
  case (Suc n)
  from Suc.prems(2) obtain s1 where s1: "for_each [0..<n] body s = Inr s1" and last: "body n s1 = Inr s'"
    by (auto simp: for_each_append split: sum.splits)
  have "P n s1" using s1 Suc.prems(1) by (intro Suc.IH) auto
  then show ?case using last Suc.prems(1) by blast
qed

lemma sum_list_update_nat:
  "i < length xs \<Longrightarrow> sum_list (map f (xs[i := y])) + f (xs ! i) = sum_list (map f xs) + (f y :: nat)"
proof (induction xs arbitrary: i)
  case Nil
  then show ?case by simp
next
  case (Cons x xs)
  then show ?case by (cases i) auto
qed

lemma count_row_update:
  assumes "i < length xs"
  shows "length (filter P (xs[i := y])) + (if P (xs ! i) then 1 else 0)
       = length (filter P xs) + (if P y then 1 else 0)"
proof -
  have "length (filter P zs) = sum_list (map (\<lambda>x. if P x then 1 else 0) zs)" for zs :: "'a list"
    by (induction zs) auto
  then show ?thesis
    using sum_list_update_nat [OF assms, of "\<lambda>x. if P x then 1 else 0" y] by simp
qed

lemma count_labels_rows: "count_labels P b = sum_list (map (\<lambda>r. length (filter P r)) b)"
  by (induction b) (auto simp: count_labels_def)

lemma count_set_cell:
  assumes "r < length b" "c < length (b ! r)"
  shows "count_labels P (set_cell b r c v) + (if P (b ! r ! c) then 1 else 0)
       = count_labels P b + (if P v then 1 else 0)"
proof -
  have "count_labels P (set_cell b r c v) + length (filter P (b ! r))
      = count_labels P b + length (filter P ((b ! r)[c := v]))"
    unfolding count_labels_rows set_cell_def
    using sum_list_update_nat [OF assms(1), of "\<lambda>r. length (filter P r)" "(b ! r)[c := v]"] .
  then show ?thesis using count_row_update [OF assms(2), of P v] by linarith
qed

lemma grid8_set_cell: "grid8 b \<Longrightarrow> grid8 (set_cell b r c v)"
  by (cases "r < length b")
    (auto simp: grid8_def set_cell_def list_all_length nth_list_update list_update_beyond)

lemma nth_set_cell:
  "r < length b \<Longrightarrow> c < length (b ! r) \<Longrightarrow>
   set_cell b r c v ! r' ! c' = (if r' = r \<and> c' = c then v else b ! r' ! c')"
  by (auto simp: set_cell_def nth_list_update)

lemma board_labels_set_cell:
  assumes "board_labels b" "v = CHR ''.'' \<or> v \<in> set piece_letters \<or> v = CHR ''?''"
  shows "board_labels (set_cell b r c v)"
proof -
  have "x = CHR ''.'' \<or> x \<in> set piece_letters \<or> x = CHR ''?''"
    if "row \<in> set (set_cell b r c v)" "x \<in> set row" for row x
  proof -
    have "row \<in> insert ((b ! r)[c := v]) (set b)"
      using that(1) set_update_subset_insert unfolding set_cell_def by fast
    then have "x \<in> insert v (\<Union> (set ` set b))"
    proof
      assume "row = (b ! r)[c := v]"
      then have xin: "x \<in> insert v (set (b ! r))" using that(2) set_update_subset_insert by fast
      show ?thesis
      proof (cases "r < length b")
        case True
        then show ?thesis using xin by auto
      next
        case False
        then have "set_cell b r c v = b" by (simp add: set_cell_def list_update_beyond)
        then show ?thesis using that by auto
      qed
    next
      assume "row \<in> set b"
      then show ?thesis using that(2) by auto
    qed
    then show ?thesis using assms unfolding board_labels_def list_all_iff by blast
  qed
  then show ?thesis unfolding board_labels_def list_all_iff by blast
qed


lemma guess_range:
  "guess_piece_type cv cell pc cc \<in> {CHR ''r'', CHR ''q'', CHR ''n'', CHR ''b'', CHR ''p''}"
  by (auto simp: guess_piece_type_def Let_def split: list.splits prod.splits)

text \<open>What a label counts as: each label is of exactly one kind.\<close>

lemma white_label:
  assumes "t \<in> {CHR ''r'', CHR ''q'', CHR ''n'', CHR ''b'', CHR ''p''}"
  shows "upper t \<in> set white_letters" "upper t \<notin> set black_letters"
    "upper t \<in> set piece_letters" "upper t \<noteq> CHR ''.''" "upper t \<noteq> CHR ''?''"
  using assms by (auto simp: upper_pieces white_letters_def black_letters_def piece_letters_def)

lemma black_label:
  assumes "t \<in> {CHR ''r'', CHR ''q'', CHR ''n'', CHR ''b'', CHR ''p''}"
  shows "lower t \<in> set black_letters" "lower t \<notin> set white_letters"
    "lower t \<in> set piece_letters" "lower t \<noteq> CHR ''.''" "lower t \<noteq> CHR ''?''"
  using assms by (auto simp: lower_pieces white_letters_def black_letters_def piece_letters_def)

lemma other_labels:
  "CHR ''.'' \<notin> set white_letters" "CHR ''.'' \<notin> set black_letters"
  "CHR ''?'' \<notin> set white_letters" "CHR ''?'' \<notin> set black_letters"
  "CHR ''?'' \<notin> set piece_letters" "CHR ''.'' \<notin> set piece_letters"
  by (simp_all add: white_letters_def black_letters_def piece_letters_def)

lemma analyse_cell_effect:
  assumes "analyse_cell cv files r c s = Inr s'"
  shows "\<exists>v. (v = CHR ''.'' \<or> v \<in> set piece_letters \<or> v = CHR ''?'') \<and>
           board s' = set_cell (board s) r c v \<and>
           empty_count s' = empty_count s + (if v = CHR ''.'' then 1 else 0) \<and>
           white_count s' = white_count s + (if v \<in> set white_letters then 1 else 0) \<and>
           black_count s' = black_count s + (if v \<in> set black_letters then 1 else 0) \<and>
           (unknown_colour cv (files r c) \<longrightarrow> v = CHR ''?'')"
proof (cases "files r c")
  case NoFile
  have "s' = s\<lparr>board := set_cell (board s) r c CHR ''?''\<rparr>"
    using assms NoFile by (simp add: analyse_cell_def)
  then show ?thesis using NoFile
    by (intro exI [of _ "CHR ''?''"]) (simp add: unknown_colour_def other_labels)
next
  case Unreadable
  then show ?thesis using assms by (simp add: analyse_cell_def)
next
  case (Pixels cell)
  let ?cc = "get_cell_color cv cell"
  let ?pc = "get_piece_color cv cell ?cc"
  let ?t = "guess_piece_type cv cell ?pc ?cc"
  have t: "?t \<in> {CHR ''r'', CHR ''q'', CHR ''n'', CHR ''b'', CHR ''p''}" by (rule guess_range)
  consider (fail) e where "is_cell_empty cv cell ?cc = Inl e"
    | (empty) "is_cell_empty cv cell ?cc = Inr True"
    | (white) "is_cell_empty cv cell ?cc = Inr False" "?pc = CHR ''w''"
    | (black) "is_cell_empty cv cell ?cc = Inr False" "?pc \<noteq> CHR ''w''" "?pc = CHR ''b''"
    | (unknown) "is_cell_empty cv cell ?cc = Inr False" "?pc \<noteq> CHR ''w''" "?pc \<noteq> CHR ''b''"
    by (cases "is_cell_empty cv cell ?cc") auto
  then show ?thesis
  proof cases
    case fail
    then show ?thesis using assms Pixels by (simp add: analyse_cell_def)
  next
    case empty
    have "s' = s\<lparr>board := set_cell (board s) r c CHR ''.'', empty_count := empty_count s + 1\<rparr>"
      using assms Pixels empty by (simp add: analyse_cell_def)
    then show ?thesis using Pixels empty
      by (intro exI [of _ "CHR ''.''"]) (simp add: unknown_colour_def other_labels)
  next
    case white
    have "s' = s\<lparr>board := set_cell (board s) r c (upper ?t), white_count := white_count s + 1\<rparr>"
      using assms Pixels white by (simp add: analyse_cell_def Let_def)
    then show ?thesis using Pixels white white_label [OF t]
      by (intro exI [of _ "upper ?t"]) (simp add: unknown_colour_def)
  next
    case black
    have "s' = s\<lparr>board := set_cell (board s) r c (lower ?t), black_count := black_count s + 1\<rparr>"
      using assms Pixels black by (simp add: analyse_cell_def Let_def)
    then show ?thesis using Pixels black black_label [OF t]
      by (intro exI [of _ "lower ?t"]) (simp add: unknown_colour_def)
  next
    case unknown
    have "s' = s\<lparr>board := set_cell (board s) r c CHR ''?''\<rparr>"
      using assms Pixels unknown by (simp add: analyse_cell_def Let_def)
    then show ?thesis using Pixels unknown
      by (intro exI [of _ "CHR ''?''"]) (simp add: unknown_colour_def other_labels)
  qed
qed


lemma visited_step:
  assumes inv: "visited cv files (8 * r + c) s" and r: "r < 8" and c: "c < 8"
    and run: "analyse_cell cv files r c s = Inr s'"
  shows "visited cv files (8 * r + Suc c) s'"
proof -
  let ?b = "board s"
  obtain v where v: "v = CHR ''.'' \<or> v \<in> set piece_letters \<or> v = CHR ''?''"
    and b': "board s' = set_cell ?b r c v"
    and e': "empty_count s' = empty_count s + (if v = CHR ''.'' then 1 else 0)"
    and w': "white_count s' = white_count s + (if v \<in> set white_letters then 1 else 0)"
    and k': "black_count s' = black_count s + (if v \<in> set black_letters then 1 else 0)"
    and u: "unknown_colour cv (files r c) \<longrightarrow> v = CHR ''?''"
    using analyse_cell_effect [OF run] by blast
  have g: "grid8 ?b" and l: "board_labels ?b"
    and fresh: "\<And>r' c'. r' < 8 \<Longrightarrow> c' < 8 \<Longrightarrow> 8 * r + c \<le> 8 * r' + c' \<Longrightarrow> ?b ! r' ! c' = CHR ''.''"
    and seen: "\<And>r' c'. r' < 8 \<Longrightarrow> c' < 8 \<Longrightarrow> 8 * r' + c' < 8 * r + c \<Longrightarrow>
                 unknown_colour cv (files r' c') \<Longrightarrow> ?b ! r' ! c' = CHR ''?''"
    and ce: "empty_count s + count_labels (\<lambda>c. c \<noteq> CHR ''.'') ?b = 8 * r + c"
    and cw: "white_count s = count_labels (\<lambda>c. c \<in> set white_letters) ?b"
    and ck: "black_count s = count_labels (\<lambda>c. c \<in> set black_letters) ?b"
    using inv unfolding visited_def by blast+
  have len: "r < length ?b" "c < length (?b ! r)"
    using g r c by (auto simp: grid8_def list_all_length)
  have old: "?b ! r ! c = CHR ''.''" using fresh [of r c] r c by simp
  have nth: "board s' ! r' ! c' = (if r' = r \<and> c' = c then v else ?b ! r' ! c')" for r' c'
    unfolding b' using len by (rule nth_set_cell)
  have idx: "(8 * r' + c' = 8 * r + c) = (r' = r \<and> c' = c)" if "c' < 8" for r' c'
    using that c by presburger
  have 1: "grid8 (board s')" unfolding b' using g by (rule grid8_set_cell)
  have 2: "board_labels (board s')" unfolding b' using l v by (rule board_labels_set_cell)
  have 3: "board s' ! r' ! c' = CHR ''.''"
    if "r' < 8" "c' < 8" "8 * r + Suc c \<le> 8 * r' + c'" for r' c'
  proof -
    have "\<not> (r' = r \<and> c' = c)" using that(3) by auto
    moreover have "?b ! r' ! c' = CHR ''.''" using that by (intro fresh) auto
    ultimately show ?thesis by (auto simp: nth)
  qed
  have 4: "board s' ! r' ! c' = CHR ''?''"
    if "r' < 8" "c' < 8" "8 * r' + c' < 8 * r + Suc c" "unknown_colour cv (files r' c')" for r' c'
  proof (cases "r' = r \<and> c' = c")
    case True
    then show ?thesis using u that(4) by (simp add: nth)
  next
    case False
    then have "8 * r' + c' \<noteq> 8 * r + c" using idx [OF that(2)] by simp
    then have "8 * r' + c' < 8 * r + c" using that(3) by simp
    then have "?b ! r' ! c' = CHR ''?''" using that by (intro seen)
    then show ?thesis using False by (auto simp: nth)
  qed
  have 5: "empty_count s' + count_labels (\<lambda>c. c \<noteq> CHR ''.'') (board s') = 8 * r + Suc c"
    using count_set_cell [OF len, of "\<lambda>c. c \<noteq> CHR ''.''" v] ce
    unfolding b' e' old by (simp split: if_splits)
  have 6: "white_count s' = count_labels (\<lambda>c. c \<in> set white_letters) (board s')"
    using count_set_cell [OF len, of "\<lambda>c. c \<in> set white_letters" v] cw
    unfolding b' w' old by (simp add: other_labels split: if_splits)
  have 7: "black_count s' = count_labels (\<lambda>c. c \<in> set black_letters) (board s')"
    using count_set_cell [OF len, of "\<lambda>c. c \<in> set black_letters" v] ck
    unfolding b' k' old by (simp add: other_labels split: if_splits)
  show ?thesis unfolding visited_def using 1 2 3 4 5 6 7 by blast
qed

lemma rep8: "replicate 8 x = [x, x, x, x, x, x, x, x]"
  by (simp add: numeral_eq_Suc)

lemma visited_initial: "visited cv files 0 initial"
proof -
  have "replicate 8 (replicate 8 CHR ''.'') ! r ! c = CHR ''.''" if "r < 8" "c < 8" for r c
    using that by simp
  moreover have "grid8 (replicate 8 (replicate 8 CHR ''.''))"
    by (simp add: grid8_def list_all_length)
  moreover have "board_labels (replicate 8 (replicate 8 CHR ''.''))"
    by (simp add: board_labels_def list_all_length)
  moreover have "count_labels P (replicate 8 (replicate 8 CHR ''.'')) = 0" if "\<not> P CHR ''.''" for P
    using that by (simp add: count_labels_def rep8)
  ultimately show ?thesis
    by (simp add: visited_def initial_def other_labels)
qed

lemma analyse_visited:
  assumes "analyse cv files = Inr st"
  shows "visited cv files 64 st"
proof -
  have row: "visited cv files (8 * Suc r) s'"
    if "r < 8" "visited cv files (8 * r) s"
      "for_each [0..<8] (\<lambda>col. analyse_cell cv files r col) s = Inr s'" for r s s'
  proof -
    have "visited cv files (8 * r + 8) s'"
    proof (rule for_each_upt_rule [where P = "\<lambda>c. visited cv files (8 * r + c)", OF _ _ that(3)])
      show "visited cv files (8 * r + 0) s" using that(2) by simp
    next
      fix i t t'
      assume "i < 8" "visited cv files (8 * r + i) t" "analyse_cell cv files r i t = Inr t'"
      then show "visited cv files (8 * r + Suc i) t'" using that(1) by (intro visited_step)
    qed
    then show ?thesis by (simp add: add.commute)
  qed
  have "visited cv files (8 * 8) st"
  proof (rule for_each_upt_rule [where P = "\<lambda>r. visited cv files (8 * r)"])
    show "visited cv files (8 * 0) initial" using visited_initial [of cv files] by simp
  next
    show "for_each [0..<8] (\<lambda>row. for_each [0..<8] (\<lambda>col. analyse_cell cv files row col)) initial = Inr st"
      using assms by (simp add: analyse_def)
  next
    fix i t t'
    assume "i < 8" "visited cv files (8 * i) t"
      "for_each [0..<8] (\<lambda>col. analyse_cell cv files i col) t = Inr t'"
    then show "visited cv files (8 * Suc i) t'" by (rule row)
  qed
  then show ?thesis by simp
qed




lemma grey_light: "get_cell_color plain_cell grey_piece = ''light''"
  by (simp add: get_cell_color_def plain_cell_def grey_piece_def np_mean_def gt_def)

lemma grey_occupied: "is_cell_empty plain_cell grey_piece ''light'' = Inr False"
  by (simp add: is_cell_empty_def plain_cell_def grey_piece_def np_min_def np_max_def
      count_pixels_def true_divide_def lt_def shape0_def shape1_def)

lemma grey_unknown: "get_piece_color plain_cell grey_piece ''light'' = CHR ''?''"
  by (simp add: get_piece_color_def plain_cell_def grey_piece_def np_mean_def gt_def lt_def
      shape0_def shape1_def slice_def)

lemma empty_light: "get_cell_color plain_cell empty_cell = ''light''"
  by (simp add: get_cell_color_def plain_cell_def empty_cell_def np_mean_def gt_def)

lemma empty_empty: "is_cell_empty plain_cell empty_cell ''light'' = Inr True"
  by (simp add: is_cell_empty_def plain_cell_def empty_cell_def np_min_def np_max_def
      count_pixels_def true_divide_def lt_def shape0_def shape1_def)

lemma step_grey:
  "analyse_cell plain_cell one_grey_piece 4 2 st
     = Inr (st\<lparr>board := set_cell (board st) 4 2 CHR ''?''\<rparr>)"
  by (simp add: analyse_cell_def one_grey_piece_def grey_light grey_occupied grey_unknown)

lemma step_empty:
  "row \<noteq> 4 \<or> col \<noteq> 2 \<Longrightarrow> analyse_cell plain_cell one_grey_piece row col st
     = Inr (st\<lparr>board := set_cell (board st) row col CHR ''.'',
               empty_count := empty_count st + 1\<rparr>)"
  by (auto simp: analyse_cell_def one_grey_piece_def empty_light empty_empty)

lemma range8: "[0..<8] = [0, 1, 2, 3, 4, 5, 6, 7]"
  by (simp add: upt_rec)

lemma upd_numeral: "(x # xs)[numeral n := v] = x # xs[pred_numeral n := v]"
  by (simp add: numeral_eq_Suc)

lemma analyse_one_grey_piece:
  "analyse plain_cell one_grey_piece =
     Inr \<lparr>board = [''........'', ''........'', ''........'', ''........'',
                   ''..?.....'', ''........'', ''........'', ''........''],
          empty_count = 63, white_count = 0, black_count = 0\<rparr>"
  by (simp add: analyse_def initial_def range8 step_empty step_grey set_cell_def rep8 upd_numeral)







lemma parse_rank_keeps: "c \<in> set (parse_rank s) \<Longrightarrow> c \<noteq> CHR ''.'' \<Longrightarrow> c \<in> set s"
  by (induction s) (auto simp: parse_rank_def expand_token_def split: if_splits)

lemma split_subset: "w \<in> set (split sep s) \<Longrightarrow> set w \<subseteq> set s"
proof (induction s arbitrary: w)
  case Nil
  then show ?case by simp
next
  case (Cons c s)
  show ?case
  proof (cases "c = sep")
    case True
    then show ?thesis using Cons by auto
  next
    case False
    show ?thesis
    proof (cases "split sep s")
      case Nil
      then show ?thesis using Cons.prems False by simp
    next
      case (Cons u us)
      then have "w = c # u \<or> w \<in> set us" using Cons.prems False by simp
      moreover have "set u \<subseteq> set s" "\<And>x. x \<in> set us \<Longrightarrow> set x \<subseteq> set s"
        using Cons Cons.IH by auto
      ultimately show ?thesis by auto
    qed
  qed
qed


text \<open>
  Claim C9. When the analysis finishes and the cell at a position is occupied with a
  piece of unknown colour, the board holds the placeholder there, which is no piece
  letter of either case; the position string contains the placeholder, and read back it
  shows the placeholder at that position.
\<close>

theorem unknown_colour_kept:
  assumes "analyse cv files = Inr st" and "row < 8" and "col < 8"
    and "unknown_colour cv (files row col)"
  shows "board st ! row ! col = CHR ''?'' \<and> CHR ''?'' \<notin> set piece_letters \<and>
         parse_position (fen_position (board st)) ! row ! col = CHR ''?'' \<and>
         CHR ''?'' \<in> set (fen_position (board st))"
proof -
  have v: "visited cv files 64 st" using assms(1) by (rule analyse_visited)
  have g: "grid8 (board st)" and l: "board_labels (board st)"
    using v unfolding visited_def by blast+
  have "8 * row + col < 64" using assms(2,3) by simp
  then have q: "board st ! row ! col = CHR ''?''"
    using v assms(2,3,4) unfolding visited_def by blast
  have rt: "parse_position (fen_position (board st)) = board st"
    using g l by (rule parse_roundtrip)
  have len: "length (board st) = 8" "length (board st ! row) = 8"
    using g assms(2) by (auto simp: grid8_def list_all_length)
  let ?segs = "split CHR ''/'' (fen_position (board st))"
  have "length ?segs = 8" using rt len(1) by (metis length_map parse_position_def)
  then have seg: "?segs ! row \<in> set ?segs" and "parse_rank (?segs ! row) = board st ! row"
    using rt assms(2) by (auto simp: parse_position_def dest: arg_cong [where f = "\<lambda>b. b ! row"])
  then have "CHR ''?'' \<in> set (parse_rank (?segs ! row))"
    using q len(2) assms(3) by (metis nth_mem)
  then have "CHR ''?'' \<in> set (?segs ! row)" by (rule parse_rank_keeps) simp
  then have "CHR ''?'' \<in> set (fen_position (board st))" using split_subset [OF seg] by blast
  then show ?thesis using q rt by (simp add: other_labels)
qed

theorem unknown_colour_kept_witness:
  "analyse plain_cell one_grey_piece =
     Inr \<lparr>board = [''........'', ''........'', ''........'', ''........'',
                   ''..?.....'', ''........'', ''........'', ''........''],
          empty_count = 63, white_count = 0, black_count = 0\<rparr> \<and>
   unknown_colour plain_cell (one_grey_piece 4 2) \<and>
   CHR ''?'' \<in> set (fen_position [''........'', ''........'', ''........'', ''........'',
                   ''..?.....'', ''........'', ''........'', ''........''])"
proof -
  have u: "unknown_colour plain_cell (one_grey_piece 4 2)"
    by (simp add: unknown_colour_def one_grey_piece_def grey_light grey_occupied grey_unknown)
  show ?thesis
    using u analyse_one_grey_piece unknown_colour_kept [OF analyse_one_grey_piece _ _ u]
    by simp
qed


end
